theory Spec2Isabelle
  imports Complex_Main "HOL-Library.AList" "HOL-Library.Log_Nat"
begin

section \<open>Data model (Match.js, Tournament.js, class TournamentBracket)\<close>

text \<open>
  Identifiers are MongoDB ObjectIds (or their hex strings). The code only ever compares
  them, so they are modelled as natural numbers: \<open>uid\<close> for a user, \<open>oid\<close> for a match,
  \<open>tid\<close> for a tournament.
\<close>

type_synonym uid = nat
type_synonym oid = nat
type_synonym tid = nat

text \<open>The \<open>status\<close> enum of \<open>MatchSchema\<close>, with its default \<open>pending\<close>.\<close>

datatype status =
  pending | scheduled | completed | under_review | dispute | awaiting_confirmation

text \<open>The \<open>nextMatchSlot\<close> enum of \<open>MatchSchema\<close>: the strings 'player1' and 'player2'.\<close>

datatype slot = SlotPlayer1 | SlotPlayer2

text \<open>
  A score pair \<open>{ player1: Number, player2: Number }\<close>; \<open>None\<close> is JavaScript's
  \<open>undefined\<close> (an argument the caller left out).
\<close>

type_synonym scores = "(int \<times> int) option"

text \<open>One entry of the \<open>claims\<close> map: what \<open>submitResult\<close> stores for a user.\<close>

record claim =
  winnerId :: uid
  scores :: scores
  claim_proof :: "string option"
  timestamp :: nat

text \<open>
  The \<open>result\<close> of a match as \<open>MatchSchema\<close> declares it: scores and a timestamp. The
  object literal that \<open>finalizeMatch\<close> assigns also has a key \<open>winner\<close>; the schema has no
  such path under \<open>result\<close>, so the document does not keep it.
\<close>

record result =
  res_scores :: scores
  res_timestamp :: nat

text \<open>
  A Match document. \<open>claims\<close> is \<open>None\<close> while the document has no map (the test
  \<open>!match.claims\<close>); a present map is an association list with one entry per key, kept in
  insertion order, as a JavaScript \<open>Map\<close> is. A player slot holds the user's id or
  \<open>None\<close> for \<open>null\<close>.
\<close>

record match =
  oid :: oid
  tournamentId :: tid
  round_m :: nat
  player1 :: "uid option"
  player2 :: "uid option"
  winner :: "uid option"
  status :: status
  nextMatchId :: "oid option"
  nextMatchSlot :: "slot option"
  result :: "result option"
  claims :: "(uid \<times> claim) list option"

text \<open>A registered participant, \<open>{ _id, username }\<close>.\<close>

record participant =
  p_id :: uid
  username :: string

text \<open>The fields of the Tournament document that the bracket code reads and writes.\<close>

record tournament =
  t_matches :: "oid list"
  t_rounds :: "nat list"
  t_status :: string

text \<open>
  The state the class works on: the bracket object's own \<open>tournamentId\<close> and \<open>status\<close>
  fields, the Match collection (documents in insertion order) and the Tournament document
  with id \<open>this.tournamentId\<close> (\<open>None\<close> when the collection has none).
\<close>

record bracket =
  this_tournamentId :: tid
  this_status :: string
  db :: "match list"
  tournament_doc :: "tournament option"

text \<open>The only exception the modelled code can raise: reading a property of \<open>null\<close>.\<close>

datatype error = TypeError

section \<open>Database access\<close>

text \<open>
  \<open>Match.findById(matchId).populate('player1').populate('player2')\<close>: the first document
  with that id, or \<open>null\<close>. Every player reference is taken to name an existing user, so
  a populated slot is non-null exactly when the reference is.
\<close>

definition getMatch :: "match list \<Rightarrow> oid \<Rightarrow> match option" where
  "getMatch ms matchId = find (\<lambda>d. oid d = matchId) ms"

text \<open>\<open>doc.save()\<close>: the stored document with that id takes the values \<open>f\<close> writes.\<close>

fun updateOne :: "oid \<Rightarrow> (match \<Rightarrow> match) \<Rightarrow> match list \<Rightarrow> match list" where
  "updateOne i f [] = []"
| "updateOne i f (d # ds) = (if oid d = i then f d # ds else d # updateOne i f ds)"

section \<open>Advancement (advanceWinner)\<close>

text \<open>
  The parameter \<open>winnerId\<close> is written \<open>wId\<close>.
  \<open>match.player1.id == winnerId ? match.player1 : match.player2\<close> raises a TypeError
  when \<open>match.player1\<close> is \<open>null\<close>. A \<open>nextMatchSlot\<close> that is neither 'player1' nor
  'player2' assigns nothing. \<open>nextMatch\<close> was read from the collection in this call, so
  saving it stores the whole updated document.
\<close>

definition place_winner :: "slot option \<Rightarrow> uid option \<Rightarrow> match \<Rightarrow> match" where
  "place_winner sl w nextMatch =
     (case sl of
        Some SlotPlayer1 \<Rightarrow> nextMatch\<lparr>player1 := w\<rparr>
      | Some SlotPlayer2 \<Rightarrow> nextMatch\<lparr>player2 := w\<rparr>
      | None \<Rightarrow> nextMatch)"

definition schedule_if_full :: "match \<Rightarrow> match" where
  "schedule_if_full nextMatch =
     (if player1 nextMatch \<noteq> None \<and> player2 nextMatch \<noteq> None
      then nextMatch\<lparr>status := scheduled\<rparr> else nextMatch)"

definition advanceWinner :: "bracket \<Rightarrow> oid \<Rightarrow> uid \<Rightarrow> error + bracket" where
  "advanceWinner st matchId wId =
     (case getMatch (db st) matchId of
        None \<Rightarrow> Inr st
      | Some match \<Rightarrow>
          (case nextMatchId match of
             Some nid \<Rightarrow>
               (case getMatch (db st) nid of
                  None \<Rightarrow> Inr st
                | Some nextMatch \<Rightarrow>
                    (case player1 match of
                       None \<Rightarrow> Inl TypeError
                     | Some p1 \<Rightarrow>
                         let w = (if p1 = wId then Some p1 else player2 match);
                             nextMatch' = schedule_if_full (place_winner (nextMatchSlot match) w nextMatch)
                         in Inr (st\<lparr>db := updateOne nid (\<lambda>d. nextMatch') (db st)\<rparr>)))
           | None \<Rightarrow> Inr (st\<lparr>this_status := ''completed''\<rparr>)))"

section \<open>Result submission (submitResult, finalizeMatch)\<close>

text \<open>
  \<open>finalizeMatch\<close> sets \<open>result\<close> and \<open>status\<close> on the in-memory document it is given
  and calls \<open>advanceWinner\<close>; it returns the bracket after advancement and the in-memory
  document. Of the assigned object only \<open>scores\<close> and \<open>timestamp\<close> are paths of the schema;
  \<open>match.winner\<close> is not assigned. The two readings of the clock are the parameter \<open>now\<close>.
\<close>

definition finalizeMatch :: "bracket \<Rightarrow> match \<Rightarrow> uid \<Rightarrow> scores \<Rightarrow> nat \<Rightarrow> error + (bracket \<times> match)" where
  "finalizeMatch st match wId sc now =
     (let match' = match\<lparr>result := Some \<lparr>res_scores = sc, res_timestamp = now\<rparr>,
                          status := completed\<rparr>
      in case advanceWinner st (oid match) wId of
           Inl e \<Rightarrow> Inl e
         | Inr st' \<Rightarrow> Inr (st', match'))"

text \<open>
  \<open>match.save()\<close> in \<open>submitResult\<close>: the paths the function assigned (\<open>claims\<close>,
  \<open>status\<close>, \<open>result\<close>) are written to the stored document.
\<close>

definition save_match :: "bracket \<Rightarrow> match \<Rightarrow> bracket" where
  "save_match st match =
     st\<lparr>db := updateOne (oid match)
                 (\<lambda>d. d\<lparr>claims := claims match, status := status match, result := result match\<rparr>)
                 (db st)\<rparr>"

text \<open>\<open>match.claims.get(pId)\<close> where \<open>pId\<close> is \<open>undefined\<close> for an empty slot.\<close>

definition claims_get :: "(uid \<times> claim) list \<Rightarrow> uid option \<Rightarrow> claim option" where
  "claims_get cl pId = (case pId of None \<Rightarrow> None | Some p \<Rightarrow> map_of cl p)"

text \<open>
  The claims map after \<open>match.claims.set(userId, ...)\<close>, starting from an empty map
  when the document had none: one entry per key, the entry of \<open>userId\<close> replaced.
\<close>

definition record_claim :: "match \<Rightarrow> uid \<Rightarrow> claim \<Rightarrow> (uid \<times> claim) list" where
  "record_claim match0 userId c =
     AList.update userId c (case claims match0 of None \<Rightarrow> [] | Some cl \<Rightarrow> cl)"

text \<open>
  \<open>submitResult\<close> returns \<open>null\<close> (here \<open>None\<close>) for an unknown match and the in-memory
  document otherwise; an exception raised on the way leaves the collection as it was.
  The parameters \<open>winnerId\<close>, \<open>scores\<close> and \<open>proof\<close> are written \<open>wId\<close>, \<open>sc\<close>
  and \<open>prf\<close>.
\<close>

definition submitResult ::
  "bracket \<Rightarrow> oid \<Rightarrow> uid \<Rightarrow> uid \<Rightarrow> scores \<Rightarrow> string option \<Rightarrow> nat \<Rightarrow> error + (bracket \<times> match option)" where
  "submitResult st matchId userId wId sc prf now =
     (case getMatch (db st) matchId of
        None \<Rightarrow> Inr (st, None)
      | Some match0 \<Rightarrow>
          let cl = record_claim match0 userId
                     \<lparr>winnerId = wId, scores = sc, claim_proof = prf, timestamp = now\<rparr>;
              match = match0\<lparr>claims := Some cl\<rparr>;
              claim1 = claims_get cl (player1 match);
              claim2 = claims_get cl (player2 match)
          in (case (claim1, claim2) of
                (Some c1, Some c2) \<Rightarrow>
                  if winnerId c1 = winnerId c2
                  then (case finalizeMatch st match (winnerId c1) (scores c1) now of
                          Inl e \<Rightarrow> Inl e
                        | Inr (st', match') \<Rightarrow> Inr (save_match st' match', Some match'))
                  else let match' = match\<lparr>status := dispute\<rparr>
                       in Inr (save_match st match', Some match')
              | _ \<Rightarrow>
                  let match' = match\<lparr>status := awaiting_confirmation\<rparr>
                  in Inr (save_match st match', Some match')))"

section \<open>Bracket construction (generateBracket)\<close>

text \<open>
  \<open>Math.ceil(Math.log2(count))\<close> and \<open>Math.pow(2, rounds)\<close>, read as the exact
  mathematical functions. For \<open>count = 0\<close> JavaScript gives \<open>rounds = -Infinity\<close> and
  \<open>size = 0\<close>; every later use of \<open>rounds\<close> (the loop \<open>r = 2 .. rounds\<close>, the length
  of the rounds array) then behaves as with 0.
\<close>

definition rounds_of :: "nat \<Rightarrow> nat" where
  "rounds_of count = (if count = 0 then 0 else nat \<lceil>log 2 (real count)\<rceil>)"

definition size_of :: "nat \<Rightarrow> nat" where
  "size_of count = (if count = 0 then 0 else 2 ^ rounds_of count)"

text \<open>\<open>shuffled[i] || null\<close>: an index past the end reads \<open>undefined\<close>.\<close>

definition nth_or_null :: "'a list \<Rightarrow> nat \<Rightarrow> 'a option" where
  "nth_or_null xs i = (if i < length xs then Some (xs ! i) else None)"

text \<open>The round-1 match of loop index \<open>i\<close>, with the fresh id \<open>newOid\<close>.\<close>

definition firstRoundMatch :: "tid \<Rightarrow> participant list \<Rightarrow> nat \<Rightarrow> oid \<Rightarrow> nat \<Rightarrow> match" where
  "firstRoundMatch t shuffled sz newOid i =
     (let p1 = nth_or_null shuffled i;
          p2 = nth_or_null shuffled (sz - 1 - i)
      in \<lparr>oid = newOid, tournamentId = t, round_m = 1,
          player1 = map_option p_id p1,
          player2 = map_option p_id p2,
          winner = (case p2 of Some _ \<Rightarrow> None | None \<Rightarrow> map_option p_id p1),
          status = (case p2 of Some _ \<Rightarrow> scheduled | None \<Rightarrow> completed),
          nextMatchId = None, nextMatchSlot = None, result = None, claims = None\<rparr>)"

text \<open>The placeholder match of a later round.\<close>

definition placeholderMatch :: "tid \<Rightarrow> nat \<Rightarrow> oid \<Rightarrow> match" where
  "placeholderMatch t r newOid =
     \<lparr>oid = newOid, tournamentId = t, round_m = r, player1 = None, player2 = None,
      winner = None, status = pending, nextMatchId = None, nextMatchSlot = None,
      result = None, claims = None\<rparr>"

text \<open>
  The match objects are shared between \<open>allMatches\<close> and \<open>currentRoundMatches\<close>, and the
  linking loop mutates them through the latter. The model keeps the objects in
  \<open>allMatches\<close> and holds \<open>currentRoundMatches\<close> and \<open>nextRoundMatches\<close> as lists of
  positions in it. \<open>newId k\<close> is the k-th ObjectId that this run of \<open>generateBracket\<close>
  draws; every match drawn is pushed on \<open>allMatches\<close>, so the next one is
  \<open>newId (length allMatches)\<close>.

  \<open>linkRound\<close> is the inner loop \<open>for (i = 0; i < currentRoundMatches.length; i += 2)\<close>
  from index \<open>i\<close> on; \<open>subsequentRounds\<close> is the outer loop from round \<open>r\<close> on.
\<close>

definition link :: "oid \<Rightarrow> slot \<Rightarrow> match \<Rightarrow> match" where
  "link nid sl m = m\<lparr>nextMatchId := Some nid, nextMatchSlot := Some sl\<rparr>"

function linkRound ::
  "tid \<Rightarrow> (nat \<Rightarrow> oid) \<Rightarrow> nat \<Rightarrow> nat list \<Rightarrow> nat \<Rightarrow> match list \<Rightarrow> nat list \<Rightarrow> match list \<times> nat list" where
  "linkRound t newId r cur i allMatches nextRoundMatches =
     (if i < length cur then
        let m = placeholderMatch t r (newId (length allMatches));
            a1 = allMatches[cur ! i := link (oid m) SlotPlayer1 (allMatches ! (cur ! i))];
            a2 = (if i + 1 < length cur
                  then a1[cur ! (i + 1) := link (oid m) SlotPlayer2 (a1 ! (cur ! (i + 1)))]
                  else a1)
        in linkRound t newId r cur (i + 2) (a2 @ [m]) (nextRoundMatches @ [length allMatches])
      else (allMatches, nextRoundMatches))"
  by pat_completeness auto
termination
  by (relation "measure (\<lambda>(t, newId, r, cur, i, a, n). length cur - i)") auto

function subsequentRounds ::
  "tid \<Rightarrow> (nat \<Rightarrow> oid) \<Rightarrow> nat \<Rightarrow> nat \<Rightarrow> nat list \<Rightarrow> match list \<Rightarrow> match list" where
  "subsequentRounds t newId rounds r cur allMatches =
     (if r \<le> rounds then
        (case linkRound t newId r cur 0 allMatches [] of
           (allMatches', nextRoundMatches) \<Rightarrow>
             subsequentRounds t newId rounds (r + 1) nextRoundMatches allMatches')
      else allMatches)"
  by pat_completeness auto
termination
  by (relation "measure (\<lambda>(t, newId, rounds, r, cur, a). rounds + 1 - r)") auto

text \<open>
  The loop that advances the byes: it walks the in-memory \<open>allMatches\<close> and calls
  \<open>advanceWinner\<close>, which works on the stored documents.
\<close>

fun advanceByes :: "bracket \<Rightarrow> match list \<Rightarrow> error + bracket" where
  "advanceByes st [] = Inr st"
| "advanceByes st (m # ms) =
     (case winner m of
        Some w \<Rightarrow>
          (if status m = completed
           then (case advanceWinner st (oid m) w of
                   Inl e \<Rightarrow> Inl e
                 | Inr st' \<Rightarrow> advanceByes st' ms)
           else advanceByes st ms)
      | None \<Rightarrow> advanceByes st ms)"

text \<open>
  \<open>generateBracket\<close>. The shuffle \<open>[...this.participants].sort(() => 0.5 - Math.random())\<close>
  yields some permutation of the participants; the model takes the shuffled list as its
  argument. \<open>Match.insertMany\<close> appends the new documents to the collection. The
  function returns the bracket and the in-memory \<open>allMatches\<close>.
\<close>

definition generateBracket ::
  "bracket \<Rightarrow> (nat \<Rightarrow> oid) \<Rightarrow> participant list \<Rightarrow> error + (bracket \<times> match list)" where
  "generateBracket st newId shuffled =
     (let count = length shuffled;
          rounds = rounds_of count;
          sz = size_of count;
          firstRoundMatches =
            map (\<lambda>i. firstRoundMatch (this_tournamentId st) shuffled sz (newId i) i)
              [0..<(sz + 1) div 2];
          allMatches =
            subsequentRounds (this_tournamentId st) newId rounds 2
              [0..<length firstRoundMatches] firstRoundMatches
      in case advanceByes (st\<lparr>db := db st @ allMatches\<rparr>) allMatches of
           Inl e \<Rightarrow> Inl e
         | Inr st' \<Rightarrow>
             Inr (st'\<lparr>tournament_doc :=
                        map_option (\<lambda>t. t\<lparr>t_matches := map oid allMatches,
                                           t_rounds := [1..<rounds + 1],
                                           t_status := ''Active''\<rparr>)
                          (tournament_doc st')\<rparr>,
                  allMatches))"

text \<open>
  \<open>getBracketData\<close>: the stored matches of this tournament and the rounds and status of
  the Tournament document; reading them from a missing document raises.
\<close>

record bracket_data =
  bd_tournamentId :: tid
  bd_matches :: "match list"
  bd_rounds :: "nat list"
  bd_status :: string

definition getBracketData :: "bracket \<Rightarrow> error + bracket_data" where
  "getBracketData st =
     (case tournament_doc st of
        None \<Rightarrow> Inl TypeError
      | Some t \<Rightarrow>
          Inr \<lparr>bd_tournamentId = this_tournamentId st,
               bd_matches = filter (\<lambda>d. tournamentId d = this_tournamentId st) (db st),
               bd_rounds = t_rounds t,
               bd_status = t_status t\<rparr>)"

section \<open>The HTTP handler POST /api/tournament/:id/match/:matchId/result\<close>

text \<open>
  The handler calls the async methods of the bracket without awaiting them, so what it
  holds in \<open>match\<close> and \<open>updatedMatch\<close> is a Promise: an object that is truthy and has no
  \<open>player1\<close> or \<open>player2\<close> property, whatever it resolves to.
\<close>

datatype 'a promise = Promise 'a

definition promise_truthy :: "'a promise \<Rightarrow> bool" where
  "promise_truthy p = True"

text \<open>\<open>match.player1?.id\<close> and \<open>match.player2?.id\<close> read on a Promise: \<open>undefined\<close>.\<close>

definition promise_player_id :: "'a promise \<Rightarrow> slot \<Rightarrow> uid option" where
  "promise_player_id p sl = None"

text \<open>The authenticated \<open>req.user\<close>.\<close>

record user =
  user_id :: uid
  role :: string

text \<open>
  The handler, from the lookup of the bracket to the response: the HTTP status with its
  message, and the bracket afterwards. \<open>bracket_opt\<close> is \<open>tournamentBrackets.get(id)\<close>.
  The call \<open>bracket.submitResult(matchId, winnerId, scores)\<close> passes the body's
  \<open>winnerId\<close> and \<open>scores\<close> in the positions of \<open>userId\<close> and \<open>winnerId\<close>; its effect on
  the collection is part of the state returned, and a rejected Promise leaves the state
  as it was. Leaderboard, analytics and broadcast calls are outside the model.
\<close>

definition post_match_result ::
  "bracket option \<Rightarrow> oid \<Rightarrow> user \<Rightarrow> uid \<Rightarrow> uid \<Rightarrow> nat \<Rightarrow> (nat \<times> string) \<times> bracket option" where
  "post_match_result bracket_opt matchId req_user body_winnerId body_scores now =
     (case bracket_opt of
        None \<Rightarrow> ((404, ''Bracket not found''), None)
      | Some bracket \<Rightarrow>
          let match = Promise (getMatch (db bracket) matchId) in
          if \<not> promise_truthy match then ((404, ''Match not found''), Some bracket)
          else
            let isPlayerInMatch =
                  (promise_player_id match SlotPlayer1 = Some (user_id req_user)
                   \<or> promise_player_id match SlotPlayer2 = Some (user_id req_user));
                isAdmin = (role req_user = ''admin'')
            in if \<not> isPlayerInMatch \<and> \<not> isAdmin
               then ((403, ''Not authorized to submit results''), Some bracket)
               else
                 let updatedMatch =
                       Promise (submitResult bracket matchId body_winnerId body_scores None None now)
                 in if \<not> promise_truthy updatedMatch
                    then ((400, ''Failed to submit result''), Some bracket)
                    else (case updatedMatch of
                            Promise (Inl e) \<Rightarrow>
                              ((200, ''Result submitted successfully''), Some bracket)
                          | Promise (Inr (bracket', m)) \<Rightarrow>
                              ((200, ''Result submitted successfully''), Some bracket')))"

text \<open>A run of \<open>submitResult\<close> calls, one after the other, stopping at an exception.\<close>

record submission =
  s_matchId :: oid
  s_userId :: uid
  s_winnerId :: uid
  s_scores :: scores
  s_proof :: "string option"
  s_now :: nat

fun submitResults :: "bracket \<Rightarrow> submission list \<Rightarrow> error + bracket" where
  "submitResults st [] = Inr st"
| "submitResults st (s # ss) =
     (case submitResult st (s_matchId s) (s_userId s) (s_winnerId s) (s_scores s) (s_proof s) (s_now s) of
        Inl e \<Rightarrow> Inl e
      | Inr (st', m) \<Rightarrow> submitResults st' ss)"

text \<open>The keys of the claims map of the stored match \<open>j\<close> (none for an unknown match).\<close>

definition claim_keys :: "bracket \<Rightarrow> oid \<Rightarrow> uid list" where
  "claim_keys st j =
     (case getMatch (db st) j of
        None \<Rightarrow> []
      | Some m \<Rightarrow> (case claims m of None \<Rightarrow> [] | Some cl \<Rightarrow> map fst cl))"

section \<open>Example brackets\<close>

text \<open>
  The bracket of four participants with ids 1, 2, 3, 4 in shuffled order, match ids
  0, 1, 2: round 1 pairs 1 with 4 and 2 with 3, match 2 is the final.
\<close>

definition ex_players :: "participant list" where
  "ex_players = [\<lparr>p_id = 1, username = ''a''\<rparr>, \<lparr>p_id = 2, username = ''b''\<rparr>,
                 \<lparr>p_id = 3, username = ''c''\<rparr>, \<lparr>p_id = 4, username = ''d''\<rparr>]"

definition ex_empty :: bracket where
  "ex_empty = \<lparr>this_tournamentId = 7, this_status = ''active'', db = [],
               tournament_doc = Some \<lparr>t_matches = [], t_rounds = [], t_status = ''Open''\<rparr>\<rparr>"

definition ex_m0 :: match where
  "ex_m0 = \<lparr>oid = 0, tournamentId = 7, round_m = 1, player1 = Some 1, player2 = Some 4,
            winner = None, status = scheduled, nextMatchId = Some 2,
            nextMatchSlot = Some SlotPlayer1, result = None, claims = None\<rparr>"

definition ex_m1 :: match where
  "ex_m1 = \<lparr>oid = 1, tournamentId = 7, round_m = 1, player1 = Some 2, player2 = Some 3,
            winner = None, status = scheduled, nextMatchId = Some 2,
            nextMatchSlot = Some SlotPlayer2, result = None, claims = None\<rparr>"

definition ex_m2 :: match where
  "ex_m2 = \<lparr>oid = 2, tournamentId = 7, round_m = 2, player1 = None, player2 = None,
            winner = None, status = pending, nextMatchId = None,
            nextMatchSlot = None, result = None, claims = None\<rparr>"

definition ex_bracket :: bracket where
  "ex_bracket = \<lparr>this_tournamentId = 7, this_status = ''active'', db = [ex_m0, ex_m1, ex_m2],
                 tournament_doc = Some \<lparr>t_matches = [0, 1, 2], t_rounds = [1, 2],
                                         t_status = ''Active''\<rparr>\<rparr>"

definition ex_claim :: "uid \<Rightarrow> nat \<Rightarrow> claim" where
  "ex_claim w t = \<lparr>winnerId = w, scores = None, claim_proof = None, timestamp = t\<rparr>"

definition ex_sub :: "oid \<Rightarrow> uid \<Rightarrow> uid \<Rightarrow> nat \<Rightarrow> submission" where
  "ex_sub i u w t = \<lparr>s_matchId = i, s_userId = u, s_winnerId = w, s_scores = None,
                     s_proof = None, s_now = t\<rparr>"

text \<open>
  After both round-1 matches were decided by agreeing claims (1 beats 4, 3 beats 2) and
  user 3 has claimed the final.
\<close>

definition ex_played :: bracket where
  "ex_played = ex_bracket\<lparr>db :=
     [ex_m0\<lparr>status := completed,
            result := Some \<lparr>res_scores = None, res_timestamp = 2\<rparr>,
            claims := Some [(1, ex_claim 1 1), (4, ex_claim 1 2)]\<rparr>,
      ex_m1\<lparr>status := completed,
            result := Some \<lparr>res_scores = None, res_timestamp = 4\<rparr>,
            claims := Some [(2, ex_claim 3 3), (3, ex_claim 3 4)]\<rparr>,
      ex_m2\<lparr>player1 := Some 1, player2 := Some 3, status := awaiting_confirmation,
            claims := Some [(3, ex_claim 3 5)]\<rparr>]\<rparr>"

text \<open>The same bracket after user 1 has repeated the claim on the finished match 0.\<close>

definition ex_replayed :: bracket where
  "ex_replayed = ex_played\<lparr>db :=
     [ex_m0\<lparr>status := completed,
            result := Some \<lparr>res_scores = None, res_timestamp = 9\<rparr>,
            claims := Some [(1, ex_claim 1 9), (4, ex_claim 1 2)]\<rparr>,
      ex_m1\<lparr>status := completed,
            result := Some \<lparr>res_scores = None, res_timestamp = 4\<rparr>,
            claims := Some [(2, ex_claim 3 3), (3, ex_claim 3 4)]\<rparr>,
      ex_m2\<lparr>player1 := Some 1, player2 := Some 3, status := scheduled,
            claims := Some [(3, ex_claim 3 5)]\<rparr>]\<rparr>"

text \<open>The example bracket after user 1 alone has claimed match 0 for user 1.\<close>

definition ex_one_claim :: bracket where
  "ex_one_claim = ex_bracket\<lparr>db :=
     [ex_m0\<lparr>status := awaiting_confirmation, claims := Some [(1, ex_claim 1 1)]\<rparr>,
      ex_m1, ex_m2]\<rparr>"

text \<open>A requester who plays in no match of the example bracket.\<close>

definition ex_outsider :: user where
  "ex_outsider = \<lparr>user_id = 9, role = ''user''\<rparr>"

text \<open>The example bracket after users 1, 4 and 9 have each claimed match 0 for themselves.\<close>

definition ex_crowded :: bracket where
  "ex_crowded = ex_bracket\<lparr>db :=
     [ex_m0\<lparr>status := dispute,
            claims := Some [(1, ex_claim 1 1), (4, ex_claim 4 2), (9, ex_claim 9 3)]\<rparr>,
      ex_m1, ex_m2]\<rparr>"

text \<open>
  The example bracket after users 1 and 4, the players of match 0, have both claimed the
  match for the id 9, which is the id of neither.
\<close>

definition ex_outsider_won :: bracket where
  "ex_outsider_won = ex_bracket\<lparr>db :=
     [ex_m0\<lparr>status := completed,
            result := Some \<lparr>res_scores = None, res_timestamp = 2\<rparr>,
            claims := Some [(1, ex_claim 9 1), (4, ex_claim 9 2)]\<rparr>,
      ex_m1, ex_m2\<lparr>player1 := Some 4\<rparr>]\<rparr>"

section \<open>Closed forms used in the proofs about the builder\<close>

text \<open>
  \<open>linked\<close> is what the linking loop does to the match at position \<open>p\<close> of the current
  round when the next round starts at index \<open>L\<close>; \<open>linkedRound\<close> is \<open>allMatches\<close> after
  one run of the inner loop from index \<open>i\<close>.
\<close>

definition linked :: "(nat \<Rightarrow> oid) \<Rightarrow> nat \<Rightarrow> nat \<Rightarrow> match \<Rightarrow> match" where
  "linked newId L p m =
     link (newId (L + p div 2)) (if even p then SlotPlayer1 else SlotPlayer2) m"

definition linkedRound ::
  "tid \<Rightarrow> (nat \<Rightarrow> oid) \<Rightarrow> nat \<Rightarrow> nat \<Rightarrow> nat \<Rightarrow> nat \<Rightarrow> match list \<Rightarrow> match list" where
  "linkedRound t newId r s len i a =
     map (\<lambda>x. if s + i \<le> x \<and> x < s + len then linked newId (length a) (x - (s + i)) (a ! x)
              else a ! x) [0..<length a]
     @ map (\<lambda>y. placeholderMatch t r (newId (length a + y))) [0..<(len - i + 1) div 2]"

text \<open>
  A placeholder match up to its link fields; the number of matches of a round; and the
  shape of \<open>allMatches\<close> after the outer loop has run from round \<open>r\<close> on a list \<open>a\<close> whose
  last block, starting at \<open>s\<close>, is round \<open>r - 1\<close>.
\<close>

definition placeholder_like :: "tid \<Rightarrow> nat \<Rightarrow> oid \<Rightarrow> match \<Rightarrow> bool" where
  "placeholder_like t r i m =
     (\<exists>nid sl. m = (placeholderMatch t r i)\<lparr>nextMatchId := nid, nextMatchSlot := sl\<rparr>)"

definition count_round :: "nat \<Rightarrow> match list \<Rightarrow> nat" where
  "count_round r ms = length (filter (\<lambda>m. round_m m = r) ms)"

definition rounds_built ::
  "tid \<Rightarrow> (nat \<Rightarrow> oid) \<Rightarrow> nat \<Rightarrow> nat \<Rightarrow> nat \<Rightarrow> match list \<Rightarrow> match list \<Rightarrow> bool" where
  "rounds_built t newId R r s a al =
     (length al = length a + 2 ^ (R + 1 - r) - 1
      \<and> (\<forall>x<s. al ! x = a ! x)
      \<and> (\<forall>p<2 ^ (R + 1 - r). al ! (s + p) =
             (if r \<le> R then linked newId (length a) p (a ! (s + p)) else a ! (s + p)))
      \<and> (\<forall>y<2 ^ (R - r). r \<le> R \<longrightarrow>
             placeholder_like t r (newId (length a + y)) (al ! (length a + y)))
      \<and> (\<forall>x. length a \<le> x \<and> x < length al \<longrightarrow>
             (\<exists>r'. r \<le> r' \<and> r' \<le> R \<and> placeholder_like t r' (newId x) (al ! x)))
      \<and> (\<forall>r'. count_round r' (drop (length a) al) =
             (if r \<le> r' \<and> r' \<le> R then 2 ^ (R - r') else 0)))"

text \<open>
  The test of the bye loop; a round-2 match after the byes among the first \<open>t\<close> matches
  were advanced; and the new block of the collection at that point.
\<close>

definition bye :: "match \<Rightarrow> bool" where
  "bye m = (status m = completed \<and> winner m \<noteq> None)"

definition filled :: "match list \<Rightarrow> nat \<Rightarrow> nat \<Rightarrow> match \<Rightarrow> match" where
  "filled al t j m =
     schedule_if_full
       (m\<lparr>player1 := (if 2 * j < t \<and> bye (al ! (2 * j)) then winner (al ! (2 * j)) else None),
          player2 := (if 2 * j + 1 < t \<and> bye (al ! (2 * j + 1))
                      then winner (al ! (2 * j + 1)) else None)\<rparr>)"

definition byes_advanced :: "match list \<Rightarrow> nat \<Rightarrow> nat \<Rightarrow> match list" where
  "byes_advanced al k t =
     map (\<lambda>x. if k \<le> x \<and> x < k + k div 2 then filled al t (x - k) (al ! x) else al ! x)
       [0..<length al]"

text \<open>
  The names the proofs use for the parts of \<open>generateBracket\<close>: the round-1 matches, the
  in-memory \<open>allMatches\<close> after the linking loops, and the new documents of the
  collection after the bye loop.
\<close>

definition firstRound :: "bracket \<Rightarrow> (nat \<Rightarrow> oid) \<Rightarrow> participant list \<Rightarrow> match list" where
  "firstRound st newId shuffled =
     map (\<lambda>i. firstRoundMatch (this_tournamentId st) shuffled (size_of (length shuffled)) (newId i) i)
       [0..<(size_of (length shuffled) + 1) div 2]"

definition allMatches_of :: "bracket \<Rightarrow> (nat \<Rightarrow> oid) \<Rightarrow> participant list \<Rightarrow> match list" where
  "allMatches_of st newId shuffled =
     subsequentRounds (this_tournamentId st) newId (rounds_of (length shuffled)) 2
       [0..<length (firstRound st newId shuffled)] (firstRound st newId shuffled)"

definition stored_matches :: "bracket \<Rightarrow> (nat \<Rightarrow> oid) \<Rightarrow> participant list \<Rightarrow> match list" where
  "stored_matches st newId shuffled =
     byes_advanced (allMatches_of st newId shuffled) (2 ^ (rounds_of (length shuffled) - 1))
       (length (allMatches_of st newId shuffled))"

text \<open>Five participants, ids 11 to 15 in shuffled order, and a collection without matches.\<close>

definition ex_five :: "participant list" where
  "ex_five = [\<lparr>p_id = 11, username = ''a''\<rparr>, \<lparr>p_id = 12, username = ''b''\<rparr>,
              \<lparr>p_id = 13, username = ''c''\<rparr>, \<lparr>p_id = 14, username = ''d''\<rparr>,
              \<lparr>p_id = 15, username = ''e''\<rparr>]"

text \<open>
  What \<open>generateBracket\<close> builds for the five participants with match ids 0 to 6: the
  returned \<open>allMatches\<close> and the bracket afterwards.
\<close>

definition ex_match ::
  "oid \<Rightarrow> nat \<Rightarrow> uid option \<Rightarrow> uid option \<Rightarrow> uid option \<Rightarrow> status \<Rightarrow> oid option
     \<Rightarrow> slot option \<Rightarrow> match" where
  "ex_match i r p1 p2 w s nid sl =
     \<lparr>oid = i, tournamentId = 7, round_m = r, player1 = p1, player2 = p2, winner = w,
      status = s, nextMatchId = nid, nextMatchSlot = sl, result = None, claims = None\<rparr>"

definition ex_five_all :: "match list" where
  "ex_five_all =
     [ex_match 0 1 (Some 11) None (Some 11) completed (Some 4) (Some SlotPlayer1),
      ex_match 1 1 (Some 12) None (Some 12) completed (Some 4) (Some SlotPlayer2),
      ex_match 2 1 (Some 13) None (Some 13) completed (Some 5) (Some SlotPlayer1),
      ex_match 3 1 (Some 14) (Some 15) None scheduled (Some 5) (Some SlotPlayer2),
      ex_match 4 2 None None None pending (Some 6) (Some SlotPlayer1),
      ex_match 5 2 None None None pending (Some 6) (Some SlotPlayer2),
      ex_match 6 3 None None None pending None None]"

definition ex_five_built :: bracket where
  "ex_five_built =
     \<lparr>this_tournamentId = 7, this_status = ''active'',
      db = [ex_match 0 1 (Some 11) None (Some 11) completed (Some 4) (Some SlotPlayer1),
            ex_match 1 1 (Some 12) None (Some 12) completed (Some 4) (Some SlotPlayer2),
            ex_match 2 1 (Some 13) None (Some 13) completed (Some 5) (Some SlotPlayer1),
            ex_match 3 1 (Some 14) (Some 15) None scheduled (Some 5) (Some SlotPlayer2),
            ex_match 4 2 (Some 11) (Some 12) None scheduled (Some 6) (Some SlotPlayer1),
            ex_match 5 2 (Some 13) None None pending (Some 6) (Some SlotPlayer2),
            ex_match 6 3 None None None pending None None],
      tournament_doc = Some \<lparr>t_matches = [0, 1, 2, 3, 4, 5, 6], t_rounds = [1, 2, 3],
                              t_status = ''Active''\<rparr>\<rparr>"

text \<open>The player in a named slot of a match, and the other slot.\<close>

definition slot_player :: "slot \<Rightarrow> match \<Rightarrow> uid option" where
  "slot_player sl m = (case sl of SlotPlayer1 \<Rightarrow> player1 m | SlotPlayer2 \<Rightarrow> player2 m)"

definition other_slot :: "slot \<Rightarrow> slot" where
  "other_slot sl = (case sl of SlotPlayer1 \<Rightarrow> SlotPlayer2 | SlotPlayer2 \<Rightarrow> SlotPlayer1)"

section \<open>Lemmas\<close>

lemmas ex_defs = ex_bracket_def ex_m0_def ex_m1_def ex_m2_def ex_played_def ex_replayed_def
  ex_one_claim_def ex_claim_def ex_sub_def ex_empty_def ex_players_def ex_outsider_def
  ex_crowded_def

lemmas run_defs = submitResult_def finalizeMatch_def advanceWinner_def save_match_def
  getMatch_def record_claim_def claims_get_def place_winner_def schedule_if_full_def Let_def

subsection \<open>Lookups and updates of the collection\<close>

lemma getMatch_oid: "getMatch ms i = Some m \<Longrightarrow> oid m = i"
  by (auto simp: getMatch_def find_Some_iff)

lemma getMatch_updateOne:
  "(\<And>d. oid d = i \<Longrightarrow> oid (f d) = i) \<Longrightarrow>
   getMatch (updateOne i f ms) j = (if j = i then map_option f (getMatch ms i) else getMatch ms j)"
  by (induction ms) (auto simp: getMatch_def)

lemma length_updateOne [simp]: "length (updateOne i f ms) = length ms"
  by (induction ms) auto

lemma oid_place_winner [simp]: "oid (place_winner sl w nm) = oid nm"
  by (simp add: place_winner_def split: option.splits slot.splits)

lemma oid_schedule_if_full [simp]: "oid (schedule_if_full nm) = oid nm"
  by (simp add: schedule_if_full_def)

lemma claims_place_winner [simp]: "claims (place_winner sl w nm) = claims nm"
  by (simp add: place_winner_def split: option.splits slot.splits)

lemma claims_schedule_if_full [simp]: "claims (schedule_if_full nm) = claims nm"
  by (simp add: schedule_if_full_def)

lemma getMatch_save_match:
  "getMatch (db (save_match st m)) j =
     (if j = oid m
      then map_option (\<lambda>d. d\<lparr>claims := claims m, status := status m, result := result m\<rparr>)
             (getMatch (db st) (oid m))
      else getMatch (db st) j)"
  by (simp add: save_match_def getMatch_updateOne)

lemma this_status_save_match [simp]: "this_status (save_match st m) = this_status st"
  by (simp add: save_match_def)

subsection \<open>What advanceWinner can do\<close>

lemma advanceWinner_cases:
  assumes "advanceWinner st i w = Inr st'"
  shows "st' = st \<or> st' = st\<lparr>this_status := ''completed''\<rparr> \<or>
         (\<exists>m nid nm p1. getMatch (db st) i = Some m \<and> nextMatchId m = Some nid \<and>
            getMatch (db st) nid = Some nm \<and> player1 m = Some p1 \<and>
            st' = st\<lparr>db := updateOne nid
               (\<lambda>d. schedule_if_full (place_winner (nextMatchSlot m)
                        (if p1 = w then Some p1 else player2 m) nm)) (db st)\<rparr>)"
proof (cases "getMatch (db st) i")
  case None
  then show ?thesis using assms by (simp add: advanceWinner_def)
next
  case (Some m)
  show ?thesis
  proof (cases "nextMatchId m")
    case None
    then show ?thesis using assms Some by (simp add: advanceWinner_def)
  next
    case nid: (Some nid)
    show ?thesis
    proof (cases "getMatch (db st) nid")
      case None
      then show ?thesis using assms Some nid by (simp add: advanceWinner_def)
    next
      case nm: (Some nm)
      show ?thesis
      proof (cases "player1 m")
        case None
        then show ?thesis using assms Some nid nm by (simp add: advanceWinner_def)
      next
        case p1: (Some p1)
        have "st' = st\<lparr>db := updateOne nid
               (\<lambda>d. schedule_if_full (place_winner (nextMatchSlot m)
                        (if p1 = w then Some p1 else player2 m) nm)) (db st)\<rparr>"
          using assms Some nid nm p1 by (simp add: advanceWinner_def Let_def)
        then show ?thesis using Some nid nm p1 by blast
      qed
    qed
  qed
qed

lemma advanceWinner_ok:
  assumes "getMatch (db st) i = Some m" "player1 m \<noteq> None"
  shows "\<exists>st'. advanceWinner st i w = Inr st'"
  using assms by (auto simp: advanceWinner_def Let_def split: option.splits)

lemma advanceWinner_keeps:
  assumes "advanceWinner st i w = Inr st'"
  shows "map_option claims (getMatch (db st') j) = map_option claims (getMatch (db st) j)"
proof -
  from advanceWinner_cases[OF assms] consider "db st' = db st"
    | m nid nm p1 where "getMatch (db st) i = Some m" "getMatch (db st) nid = Some nm"
        "db st' = updateOne nid (\<lambda>d. schedule_if_full (place_winner (nextMatchSlot m)
                        (if p1 = w then Some p1 else player2 m) nm)) (db st)"
    by auto
  then show ?thesis
  proof cases
    case 1
    then show ?thesis by simp
  next
    case 2
    have "oid nm = nid" using 2(2) by (rule getMatch_oid)
    then show ?thesis
      using 2 by (cases "j = nid") (simp_all add: getMatch_updateOne)
  qed
qed

subsection \<open>What submitResult does to a match it finds\<close>

lemma claims_get_Some_D: "claims_get cl p = Some c \<Longrightarrow> p \<noteq> None"
  by (cases p) (auto simp: claims_get_def)

lemma map_of_record_claim: "map_of (record_claim m0 u c) u = Some c"
  by (simp add: record_claim_def update_conv')

text \<open>
  The three outcomes of \<open>submitResult\<close> on a stored match: the in-memory document carries
  the recorded claims and one of three statuses, advancement has run exactly in the
  consensus case, and the document is saved on top of the resulting collection.
\<close>

lemma submitResult_found:
  assumes found: "getMatch (db st) matchId = Some m0"
    and cl: "cl = record_claim m0 userId
                 \<lparr>winnerId = wId, scores = sc, claim_proof = prf, timestamp = now\<rparr>"
  shows "\<exists>st1 m'. submitResult st matchId userId wId sc prf now = Inr (save_match st1 m', Some m')
           \<and> oid m' = matchId \<and> claims m' = Some cl \<and> winner m' = winner m0
           \<and> player1 m' = player1 m0 \<and> player2 m' = player2 m0
           \<and> m' = m0\<lparr>claims := Some cl, status := status m', result := result m'\<rparr>
           \<and> (case (claims_get cl (player1 m0), claims_get cl (player2 m0)) of
                 (Some c1, Some c2) \<Rightarrow>
                   if winnerId c1 = winnerId c2
                   then status m' = completed
                        \<and> result m' = Some \<lparr>res_scores = scores c1,
                                             res_timestamp = now\<rparr>
                        \<and> advanceWinner st matchId (winnerId c1) = Inr st1
                   else status m' = dispute \<and> result m' = result m0 \<and> st1 = st
               | _ \<Rightarrow> status m' = awaiting_confirmation \<and> result m' = result m0 \<and> st1 = st)"
proof -
  define m where "m = m0\<lparr>claims := Some cl\<rparr>"
  have oid0: "oid m0 = matchId" using found by (rule getMatch_oid)
  show ?thesis
  proof (cases "\<exists>c1 c2. claims_get cl (player1 m0) = Some c1 \<and> claims_get cl (player2 m0) = Some c2")
    case False
    then have "submitResult st matchId userId wId sc prf now
                 = Inr (save_match st (m\<lparr>status := awaiting_confirmation\<rparr>),
                        Some (m\<lparr>status := awaiting_confirmation\<rparr>))"
      using found cl
      by (auto simp: submitResult_def Let_def m_def split: option.splits)
    then show ?thesis
      using False oid0 by (auto simp: m_def split: option.splits)
  next
    case True
    then obtain c1 c2 where c12: "claims_get cl (player1 m0) = Some c1"
      "claims_get cl (player2 m0) = Some c2" by blast
    show ?thesis
    proof (cases "winnerId c1 = winnerId c2")
      case False
      then have "submitResult st matchId userId wId sc prf now
                 = Inr (save_match st (m\<lparr>status := dispute\<rparr>), Some (m\<lparr>status := dispute\<rparr>))"
        using found c12 cl
        by (auto simp: submitResult_def Let_def m_def split: option.splits)
      then show ?thesis
        using False c12 oid0 by (auto simp: m_def)
    next
      case True
      have "player1 m0 \<noteq> None" using c12(1) by (rule claims_get_Some_D)
      then obtain st1 where adv: "advanceWinner st matchId (winnerId c1) = Inr st1"
        using advanceWinner_ok[OF found] by blast
      define m' where "m' = m\<lparr>result := Some \<lparr>res_scores = scores c1,
                                  res_timestamp = now\<rparr>, status := completed\<rparr>"
      have "submitResult st matchId userId wId sc prf now = Inr (save_match st1 m', Some m')"
        using found c12 True adv oid0 cl
        by (auto simp: submitResult_def finalizeMatch_def Let_def m_def m'_def
            split: option.splits)
      then show ?thesis
        using True c12 oid0 adv by (auto simp: m_def m'_def)
    qed
  qed
qed

lemma submitResult_unknown:
  "getMatch (db st) matchId = None \<Longrightarrow>
   submitResult st matchId userId wId sc prf now = Inr (st, None)"
  by (simp add: submitResult_def)

subsection \<open>The keys of the claims maps\<close>

lemma claim_keys_alt:
  "claim_keys st j =
     (case map_option claims (getMatch (db st) j) of
        Some (Some cl) \<Rightarrow> map fst cl | _ \<Rightarrow> [])"
  by (simp add: claim_keys_def split: option.splits)

lemma length_AList_update:
  "length (AList.update k v al) = (if k \<in> fst ` set al then length al else Suc (length al))"
  by (induction al) auto

lemma keys_record_claim:
  "getMatch (db st) i = Some m0 \<Longrightarrow>
   set (map fst (record_claim m0 u c)) = insert u (set (claim_keys st i))"
  by (auto simp: record_claim_def claim_keys_def dom_update split: option.splits)

lemma distinct_record_claim:
  "getMatch (db st) i = Some m0 \<Longrightarrow> distinct (claim_keys st i) \<Longrightarrow>
   distinct (map fst (record_claim m0 u c))"
  by (auto simp: record_claim_def claim_keys_def distinct_update split: option.splits)

lemma length_record_claim:
  "getMatch (db st) i = Some m0 \<Longrightarrow>
   length (record_claim m0 u c) =
     (if u \<in> set (claim_keys st i) then length (claim_keys st i)
      else Suc (length (claim_keys st i)))"
  by (auto simp: record_claim_def claim_keys_def length_AList_update split: option.splits)

text \<open>One call of \<open>submitResult\<close>, seen through the claims maps of the stored matches.\<close>

lemma submitResult_step:
  "\<exists>st' r. submitResult st i u w sc prf now = Inr (st', r)
     \<and> (\<forall>j. (getMatch (db st') j = None) = (getMatch (db st) j = None))
     \<and> (\<forall>j. claim_keys st' j =
            (if j = i
             then (case getMatch (db st) i of
                     None \<Rightarrow> []
                   | Some m0 \<Rightarrow> map fst (record_claim m0 u
                        \<lparr>winnerId = w, scores = sc, claim_proof = prf, timestamp = now\<rparr>))
             else claim_keys st j))"
proof (cases "getMatch (db st) i")
  case None
  then show ?thesis
    by (simp add: submitResult_unknown claim_keys_def)
next
  case (Some m0)
  define cl where "cl = record_claim m0 u
      \<lparr>winnerId = w, scores = sc, claim_proof = prf, timestamp = now\<rparr>"
  obtain st1 m' where r: "submitResult st i u w sc prf now = Inr (save_match st1 m', Some m')"
    and m': "oid m' = i" "claims m' = Some cl"
    and out: "(case (claims_get cl (player1 m0), claims_get cl (player2 m0)) of
                 (Some c1, Some c2) \<Rightarrow>
                   if winnerId c1 = winnerId c2
                   then status m' = completed
                        \<and> result m' = Some \<lparr>res_scores = scores c1,
                                             res_timestamp = now\<rparr>
                        \<and> advanceWinner st i (winnerId c1) = Inr st1
                   else status m' = dispute \<and> result m' = result m0 \<and> st1 = st
               | _ \<Rightarrow> status m' = awaiting_confirmation \<and> result m' = result m0 \<and> st1 = st)"
    using submitResult_found[OF Some cl_def] by blast
  have "st1 = st \<or> (\<exists>w'. advanceWinner st i w' = Inr st1)"
    using out by (auto split: option.splits if_splits)
  then have keep: "map_option claims (getMatch (db st1) j) = map_option claims (getMatch (db st) j)" for j
    using advanceWinner_keeps[of st i _ st1 j] by auto
  have ex: "(getMatch (db (save_match st1 m')) j = None) = (getMatch (db st) j = None)" for j
    using keep[of j] m' by (auto simp: getMatch_save_match)
  have keys_other: "claim_keys (save_match st1 m') j = claim_keys st j" if "j \<noteq> i" for j
    using keep[of j] m' that by (simp add: claim_keys_alt getMatch_save_match)
  have "getMatch (db st1) i \<noteq> None" using keep[of i] Some by auto
  then have keys_i: "claim_keys (save_match st1 m') i = map fst cl"
    using m' by (auto simp: claim_keys_def getMatch_save_match)
  show ?thesis
    using r ex keys_other keys_i Some by (auto simp: cl_def)
qed

lemma submitResults_keys:
  "\<exists>st'. submitResults st subs = Inr st'
     \<and> (\<forall>j. (getMatch (db st') j = None) = (getMatch (db st) j = None))
     \<and> (\<forall>j. getMatch (db st) j \<noteq> None \<longrightarrow>
            set (claim_keys st' j) =
              set (claim_keys st j) \<union> {s_userId s |s. s \<in> set subs \<and> s_matchId s = j})
     \<and> (\<forall>j. distinct (claim_keys st j) \<longrightarrow> distinct (claim_keys st' j))"
proof (induction subs arbitrary: st)
  case Nil
  then show ?case by simp
next
  case (Cons s ss)
  obtain st1 r where step: "submitResult st (s_matchId s) (s_userId s) (s_winnerId s) (s_scores s)
        (s_proof s) (s_now s) = Inr (st1, r)"
    and ex1: "\<And>j. (getMatch (db st1) j = None) = (getMatch (db st) j = None)"
    and keys1: "\<And>j. claim_keys st1 j =
            (if j = s_matchId s
             then (case getMatch (db st) (s_matchId s) of
                     None \<Rightarrow> []
                   | Some m0 \<Rightarrow> map fst (record_claim m0 (s_userId s)
                        \<lparr>winnerId = s_winnerId s, scores = s_scores s, claim_proof = s_proof s,
                          timestamp = s_now s\<rparr>))
             else claim_keys st j)"
    using submitResult_step[of st "s_matchId s" "s_userId s" "s_winnerId s" "s_scores s"
        "s_proof s" "s_now s"] by blast
  obtain st' where rest: "submitResults st1 ss = Inr st'"
    and ex2: "\<And>j. (getMatch (db st') j = None) = (getMatch (db st1) j = None)"
    and keys2: "\<And>j. getMatch (db st1) j \<noteq> None \<Longrightarrow>
            set (claim_keys st' j) =
              set (claim_keys st1 j) \<union> {s_userId s |s. s \<in> set ss \<and> s_matchId s = j}"
    and dist2: "\<And>j. distinct (claim_keys st1 j) \<Longrightarrow> distinct (claim_keys st' j)"
    using Cons.IH[of st1] by blast
  have run: "submitResults st (s # ss) = Inr st'"
    using step rest by simp
  have keys1_set: "set (claim_keys st1 j) =
      set (claim_keys st j) \<union> (if j = s_matchId s then {s_userId s} else {})"
    if h: "getMatch (db st) j \<noteq> None" for j
  proof (cases "j = s_matchId s")
    case False
    then show ?thesis using keys1[of j] by simp
  next
    case True
    obtain m0 where m0: "getMatch (db st) j = Some m0" using h by auto
    have "claim_keys st1 j = map fst (record_claim m0 (s_userId s)
                        \<lparr>winnerId = s_winnerId s, scores = s_scores s, claim_proof = s_proof s,
                          timestamp = s_now s\<rparr>)"
      using keys1[of j] True m0 by simp
    then show ?thesis
      using keys_record_claim[OF m0] True by simp
  qed
  have dist1: "distinct (claim_keys st1 j)" if "distinct (claim_keys st j)" for j
  proof (cases "j = s_matchId s")
    case False
    then show ?thesis using that keys1[of j] by simp
  next
    case True
    show ?thesis
    proof (cases "getMatch (db st) j")
      case None
      then show ?thesis using True keys1[of j] by simp
    next
      case (Some m0)
      then show ?thesis
        using True keys1[of j] that distinct_record_claim[of st j m0] by simp
    qed
  qed
  have "set (claim_keys st' j) =
      set (claim_keys st j) \<union> {s_userId x |x. x \<in> set (s # ss) \<and> s_matchId x = j}"
    if "getMatch (db st) j \<noteq> None" for j
  proof -
    have "getMatch (db st1) j \<noteq> None" using that ex1[of j] by simp
    then show ?thesis
      using keys2[of j] keys1_set[OF that] by auto
  qed
  then show ?case
    using run ex1 ex2 dist1 dist2 by auto
qed

section \<open>Advancement out of the final\<close>

text \<open>
  Claim C8. When the finalized match has no \<open>nextMatchId\<close> (the final), \<open>advanceWinner\<close>
  sets the bracket's status to 'completed' and changes nothing else: the result is the same
  bracket with only \<open>this.status\<close> rewritten, so the Match collection, and with it every
  match, is as before. The same holds for \<open>finalizeMatch\<close>, which calls it.
\<close>

theorem final_match_only_completes_bracket:
  assumes "getMatch (db st) matchId = Some m" and "nextMatchId m = None"
  shows "advanceWinner st matchId w = Inr (st\<lparr>this_status := ''completed''\<rparr>)
         \<and> db (st\<lparr>this_status := ''completed''\<rparr>) = db st
         \<and> finalizeMatch st m w sc now =
             Inr (st\<lparr>this_status := ''completed''\<rparr>,
                  m\<lparr>result := Some \<lparr>res_scores = sc, res_timestamp = now\<rparr>,
                    status := completed\<rparr>)"
  using assms getMatch_oid[OF assms(1)]
  by (simp add: advanceWinner_def finalizeMatch_def)

theorem final_match_only_completes_bracket_witness:
  "getMatch (db ex_played) 2 = Some (ex_m2\<lparr>player1 := Some 1, player2 := Some 3,
        status := awaiting_confirmation, claims := Some [(3, ex_claim 3 5)]\<rparr>)
   \<and> nextMatchId (ex_m2\<lparr>player1 := Some 1, player2 := Some 3,
        status := awaiting_confirmation, claims := Some [(3, ex_claim 3 5)]\<rparr>) = None
   \<and> advanceWinner ex_played 2 3 = Inr (ex_played\<lparr>this_status := ''completed''\<rparr>)"
  using final_match_only_completes_bracket [of ex_played 2
      "ex_m2\<lparr>player1 := Some 1, player2 := Some 3,
        status := awaiting_confirmation, claims := Some [(3, ex_claim 3 5)]\<rparr>" 3]
  by (simp add: ex_defs getMatch_def)

section \<open>Disagreeing claims\<close>

text \<open>
  Claim C4. When, after the claim is recorded, both slot participants have a claim and
  the two claims name different winners, \<open>submitResult\<close> sets the match's status to
  'dispute' and leaves its winner as it was (empty for a match that had none); the stored
  match differs from before only in its claims and status, every other stored match is
  unchanged (nothing is advanced into the successor) and so is the bracket's status.
\<close>

theorem disagreeing_claims_dispute:
  assumes found: "getMatch (db st) matchId = Some m0"
    and cl: "cl = record_claim m0 userId
                 \<lparr>winnerId = wId, scores = sc, claim_proof = prf, timestamp = now\<rparr>"
    and c1: "claims_get cl (player1 m0) = Some c1"
    and c2: "claims_get cl (player2 m0) = Some c2"
    and differ: "winnerId c1 \<noteq> winnerId c2"
  shows "\<exists>st' m'. submitResult st matchId userId wId sc prf now = Inr (st', Some m')
           \<and> status m' = dispute \<and> winner m' = winner m0
           \<and> getMatch (db st') matchId = Some (m0\<lparr>claims := Some cl, status := dispute\<rparr>)
           \<and> (\<forall>j. j \<noteq> matchId \<longrightarrow> getMatch (db st') j = getMatch (db st) j)
           \<and> this_status st' = this_status st"
proof -
  obtain st1 m' where r: "submitResult st matchId userId wId sc prf now = Inr (save_match st1 m', Some m')"
    and m': "oid m' = matchId" "claims m' = Some cl" "winner m' = winner m0"
    and out: "status m' = dispute \<and> result m' = result m0 \<and> st1 = st"
    using submitResult_found[OF found cl] c1 c2 differ by auto
  have "getMatch (db (save_match st m')) matchId = Some (m0\<lparr>claims := Some cl, status := dispute\<rparr>)"
    using found m' out by (simp add: getMatch_save_match)
  moreover have "\<forall>j. j \<noteq> matchId \<longrightarrow> getMatch (db (save_match st m')) j = getMatch (db st) j"
    using m' by (simp add: getMatch_save_match)
  ultimately show ?thesis using r m' out by auto
qed

theorem disagreeing_claims_dispute_witness:
  "getMatch (db ex_one_claim) 0 =
       Some (ex_m0\<lparr>status := awaiting_confirmation, claims := Some [(1, ex_claim 1 1)]\<rparr>)
   \<and> claims_get [(1, ex_claim 1 1), (4, ex_claim 4 2)] (Some 1) = Some (ex_claim 1 1)
   \<and> claims_get [(1, ex_claim 1 1), (4, ex_claim 4 2)] (Some 4) = Some (ex_claim 4 2)
   \<and> winnerId (ex_claim 1 1) \<noteq> winnerId (ex_claim 4 2)
   \<and> (\<exists>st' m'. submitResult ex_one_claim 0 4 4 None None 2 = Inr (st', Some m')
           \<and> status m' = dispute \<and> winner m' = None
           \<and> getMatch (db st') 0 =
               Some (ex_m0\<lparr>claims := Some [(1, ex_claim 1 1), (4, ex_claim 4 2)], status := dispute\<rparr>)
           \<and> (\<forall>j. j \<noteq> 0 \<longrightarrow> getMatch (db st') j = getMatch (db ex_one_claim) j)
           \<and> this_status st' = this_status ex_one_claim)"
  using disagreeing_claims_dispute [of ex_one_claim 0
      "ex_m0\<lparr>status := awaiting_confirmation, claims := Some [(1, ex_claim 1 1)]\<rparr>"
      "[(1, ex_claim 1 1), (4, ex_claim 4 2)]" 4 4 None None 2 "ex_claim 1 1" "ex_claim 4 2"]
  by (simp add: ex_defs getMatch_def record_claim_def claims_get_def)

section \<open>Submissions against a match that is not open\<close>

text \<open>The played example bracket is reached from the built one by five submissions.\<close>

lemma ex_played_reached:
  "submitResults ex_bracket
     [ex_sub 0 1 1 1, ex_sub 0 4 1 2, ex_sub 1 2 3 3, ex_sub 1 3 3 4, ex_sub 2 3 3 5]
   = Inr ex_played"
  by (simp add: ex_defs run_defs)

text \<open>
  Claim C1, as stated, fails. \<open>submitResult\<close> never looks at the status. In the played
  example bracket match 0 is 'completed' and its successor, match 2, is
  'awaiting_confirmation'. User 1 repeating the claim on match 0 does not fail: the call
  returns the match, the stored match 0 is rewritten (new claim, new result), consensus is
  found again and advancement runs a second time, which puts match 2 back to 'scheduled'.
\<close>

theorem completed_match_resubmission_counterexample:
  "status (the (getMatch (db ex_played) 0)) = completed
   \<and> status (the (getMatch (db ex_played) 2)) = awaiting_confirmation
   \<and> submitResult ex_played 0 1 1 None None 9 = Inr (ex_replayed, getMatch (db ex_replayed) 0)
   \<and> getMatch (db ex_replayed) 0 \<noteq> None
   \<and> getMatch (db ex_replayed) 0 \<noteq> getMatch (db ex_played) 0
   \<and> status (the (getMatch (db ex_replayed) 2)) = scheduled"
  by (simp add: ex_defs run_defs)

text \<open>
  Claim C1, amended. \<open>submitResult\<close> has no status gate and no MatchNotSchedulable
  failure: for every stored match, whatever its status (completed, pending and byes
  included), the call returns the match with the claim recorded under the submitter's id,
  in memory and in the stored document, and with no other field changed than \<open>claims\<close>,
  \<open>status\<close> and \<open>result\<close>. The consensus rule then decides: if one of the two slots has no
  claim (the slot is empty or its participant has not claimed) the status becomes
  'awaiting_confirmation'; if both slot participants have claims naming different winners
  it becomes 'dispute'; in both cases the result is left as it was and nothing but this
  match is written. If both claims name the same winner the match is finalized, also when
  it was finalized before: the status becomes 'completed', the result is set to the scores
  of the first slot participant's claim and the time of the call, and advancement runs for
  the agreed winner id.
\<close>

theorem submitResult_any_status:
  assumes found: "getMatch (db st) matchId = Some m0"
    and cl: "cl = record_claim m0 userId
                 \<lparr>winnerId = wId, scores = sc, claim_proof = prf, timestamp = now\<rparr>"
  shows "\<exists>st' m'. submitResult st matchId userId wId sc prf now = Inr (st', Some m')
           \<and> m' = m0\<lparr>claims := Some cl, status := status m', result := result m'\<rparr>
           \<and> map_of cl userId
                = Some \<lparr>winnerId = wId, scores = sc, claim_proof = prf, timestamp = now\<rparr>
           \<and> (\<exists>d. getMatch (db st') matchId = Some d \<and> claims d = Some cl
                  \<and> status d = status m' \<and> result d = result m')
           \<and> (claims_get cl (player1 m0) = None \<or> claims_get cl (player2 m0) = None \<longrightarrow>
                  status m' = awaiting_confirmation \<and> result m' = result m0
                  \<and> st' = save_match st m')
           \<and> (\<forall>c1 c2. claims_get cl (player1 m0) = Some c1
                  \<and> claims_get cl (player2 m0) = Some c2 \<and> winnerId c1 \<noteq> winnerId c2 \<longrightarrow>
                  status m' = dispute \<and> result m' = result m0 \<and> st' = save_match st m')
           \<and> (\<forall>c1 c2. claims_get cl (player1 m0) = Some c1
                  \<and> claims_get cl (player2 m0) = Some c2 \<and> winnerId c1 = winnerId c2 \<longrightarrow>
                  status m' = completed
                  \<and> result m' = Some \<lparr>res_scores = scores c1, res_timestamp = now\<rparr>
                  \<and> (\<exists>st1. advanceWinner st matchId (winnerId c1) = Inr st1
                         \<and> st' = save_match st1 m'))"
proof -
  obtain st1 m' where r: "submitResult st matchId userId wId sc prf now = Inr (save_match st1 m', Some m')"
    and m': "oid m' = matchId" "claims m' = Some cl"
    and rec: "m' = m0\<lparr>claims := Some cl, status := status m', result := result m'\<rparr>"
    and out: "(case (claims_get cl (player1 m0), claims_get cl (player2 m0)) of
                 (Some c1, Some c2) \<Rightarrow>
                   if winnerId c1 = winnerId c2
                   then status m' = completed
                        \<and> result m' = Some \<lparr>res_scores = scores c1,
                                             res_timestamp = now\<rparr>
                        \<and> advanceWinner st matchId (winnerId c1) = Inr st1
                   else status m' = dispute \<and> result m' = result m0 \<and> st1 = st
               | _ \<Rightarrow> status m' = awaiting_confirmation \<and> result m' = result m0 \<and> st1 = st)"
    using submitResult_found[OF found cl] by blast
  have "st1 = st \<or> (\<exists>w. advanceWinner st matchId w = Inr st1)"
    using out by (auto split: option.splits if_splits)
  then have "getMatch (db st1) matchId \<noteq> None"
    using advanceWinner_keeps[of st matchId _ st1 matchId] found by auto
  then have stored: "\<exists>d. getMatch (db (save_match st1 m')) matchId = Some d \<and> claims d = Some cl
                  \<and> status d = status m' \<and> result d = result m'"
    using m' by (auto simp: getMatch_save_match)
  have wait: "claims_get cl (player1 m0) = None \<or> claims_get cl (player2 m0) = None \<longrightarrow>
                  status m' = awaiting_confirmation \<and> result m' = result m0
                  \<and> save_match st1 m' = save_match st m'"
    using out by (auto split: option.splits)
  have disp: "\<forall>c1 c2. claims_get cl (player1 m0) = Some c1
                  \<and> claims_get cl (player2 m0) = Some c2 \<and> winnerId c1 \<noteq> winnerId c2 \<longrightarrow>
                  status m' = dispute \<and> result m' = result m0
                  \<and> save_match st1 m' = save_match st m'"
    using out by auto
  have cons: "\<forall>c1 c2. claims_get cl (player1 m0) = Some c1
                  \<and> claims_get cl (player2 m0) = Some c2 \<and> winnerId c1 = winnerId c2 \<longrightarrow>
                  status m' = completed
                  \<and> result m' = Some \<lparr>res_scores = scores c1, res_timestamp = now\<rparr>
                  \<and> (\<exists>st1'. advanceWinner st matchId (winnerId c1) = Inr st1'
                         \<and> save_match st1 m' = save_match st1' m')"
    using out by auto
  have mo: "map_of cl userId
                = Some \<lparr>winnerId = wId, scores = sc, claim_proof = prf, timestamp = now\<rparr>"
    unfolding cl by (rule map_of_record_claim)
  show ?thesis
    by (rule exI[of _ "save_match st1 m'"], rule exI[of _ m'], intro conjI)
       (use r rec mo stored wait disp cons in blast)+
qed


theorem submitResult_any_status_witness:
  "(\<exists>st' m'. submitResult ex_bracket 0 1 1 None None 1 = Inr (st', Some m')
        \<and> m' = ex_m0\<lparr>claims := Some [(1, ex_claim 1 1)], status := awaiting_confirmation\<rparr>
        \<and> st' = save_match ex_bracket m')
   \<and> (\<exists>st' m'. submitResult ex_one_claim 0 4 4 None None 2 = Inr (st', Some m')
        \<and> m' = ex_m0\<lparr>claims := Some [(1, ex_claim 1 1), (4, ex_claim 4 2)], status := dispute\<rparr>
        \<and> st' = save_match ex_one_claim m')
   \<and> (\<exists>st' m'. submitResult ex_played 0 1 1 None None 9 = Inr (st', Some m')
        \<and> m' = ex_m0\<lparr>claims := Some [(1, ex_claim 1 9), (4, ex_claim 1 2)], status := completed,
                      result := Some \<lparr>res_scores = None, res_timestamp = 9\<rparr>\<rparr>
        \<and> (\<exists>st1. advanceWinner ex_played 0 1 = Inr st1 \<and> st' = save_match st1 m'))"
proof (intro conjI)
  let ?m0 = "ex_m0"
  let ?cl = "[(1, ex_claim 1 1)]"
  have found: "getMatch (db ex_bracket) 0 = Some ?m0"
    by (simp add: ex_defs getMatch_def)
  have cl: "?cl = record_claim ?m0 1
              \<lparr>winnerId = 1, scores = None, claim_proof = None, timestamp = 1\<rparr>"
    by (simp add: ex_defs record_claim_def ex_claim_def)
  have c: "claims_get ?cl (player2 ?m0) = None"
    by (simp add: claims_get_def ex_defs)
  from submitResult_any_status[OF found cl]
  obtain st' m' where r: "submitResult ex_bracket 0 1 1 None None 1 = Inr (st', Some m')"
    and rec: "m' = ?m0\<lparr>claims := Some ?cl, status := status m', result := result m'\<rparr>"
    and wait: "claims_get ?cl (player1 ?m0) = None \<or> claims_get ?cl (player2 ?m0) = None \<longrightarrow>
                  status m' = awaiting_confirmation \<and> result m' = result ?m0
                  \<and> st' = save_match ex_bracket m'"
    by (elim exE conjE) (rule that)
  from wait c have w: "status m' = awaiting_confirmation" "result m' = result ?m0"
    "st' = save_match ex_bracket m'"
    by blast+
  have "m' = ex_m0\<lparr>claims := Some ?cl, status := awaiting_confirmation\<rparr>"
    by (subst rec) (simp add: w ex_defs)
  with r w show "\<exists>st' m'. submitResult ex_bracket 0 1 1 None None 1 = Inr (st', Some m')
        \<and> m' = ex_m0\<lparr>claims := Some [(1, ex_claim 1 1)], status := awaiting_confirmation\<rparr>
        \<and> st' = save_match ex_bracket m'"
    by blast
next
  let ?m0 = "ex_m0\<lparr>status := awaiting_confirmation, claims := Some [(1, ex_claim 1 1)]\<rparr>"
  let ?cl = "[(1, ex_claim 1 1), (4, ex_claim 4 2)]"
  have found: "getMatch (db ex_one_claim) 0 = Some ?m0"
    by (simp add: ex_defs getMatch_def)
  have cl: "?cl = record_claim ?m0 4
              \<lparr>winnerId = 4, scores = None, claim_proof = None, timestamp = 2\<rparr>"
    by (simp add: ex_defs record_claim_def ex_claim_def)
  have c: "claims_get ?cl (player1 ?m0) = Some (ex_claim 1 1)"
    "claims_get ?cl (player2 ?m0) = Some (ex_claim 4 2)"
    "winnerId (ex_claim 1 1) \<noteq> winnerId (ex_claim 4 2)"
    by (simp_all add: claims_get_def ex_defs ex_claim_def)
  from submitResult_any_status[OF found cl]
  obtain st' m' where r: "submitResult ex_one_claim 0 4 4 None None 2 = Inr (st', Some m')"
    and rec: "m' = ?m0\<lparr>claims := Some ?cl, status := status m', result := result m'\<rparr>"
    and disp: "\<forall>c1 c2. claims_get ?cl (player1 ?m0) = Some c1
                  \<and> claims_get ?cl (player2 ?m0) = Some c2 \<and> winnerId c1 \<noteq> winnerId c2 \<longrightarrow>
                  status m' = dispute \<and> result m' = result ?m0
                  \<and> st' = save_match ex_one_claim m'"
    by (elim exE conjE) (rule that)
  from disp c have w: "status m' = dispute" "result m' = result ?m0"
    "st' = save_match ex_one_claim m'"
    by blast+
  have "m' = ex_m0\<lparr>claims := Some ?cl, status := dispute\<rparr>"
    by (subst rec) (simp add: w ex_defs)
  with r w show "\<exists>st' m'. submitResult ex_one_claim 0 4 4 None None 2 = Inr (st', Some m')
        \<and> m' = ex_m0\<lparr>claims := Some [(1, ex_claim 1 1), (4, ex_claim 4 2)], status := dispute\<rparr>
        \<and> st' = save_match ex_one_claim m'"
    by blast
next
  let ?m0 = "ex_m0\<lparr>status := completed,
            result := Some \<lparr>res_scores = None, res_timestamp = 2\<rparr>,
            claims := Some [(1, ex_claim 1 1), (4, ex_claim 1 2)]\<rparr>"
  let ?cl = "[(1, ex_claim 1 9), (4, ex_claim 1 2)]"
  have found: "getMatch (db ex_played) 0 = Some ?m0"
    by (simp add: ex_defs getMatch_def)
  have cl: "?cl = record_claim ?m0 1
              \<lparr>winnerId = 1, scores = None, claim_proof = None, timestamp = 9\<rparr>"
    by (simp add: ex_defs record_claim_def ex_claim_def)
  have c: "claims_get ?cl (player1 ?m0) = Some (ex_claim 1 9)"
    "claims_get ?cl (player2 ?m0) = Some (ex_claim 1 2)"
    "winnerId (ex_claim 1 9) = winnerId (ex_claim 1 2)"
    by (simp_all add: claims_get_def ex_defs ex_claim_def)
  have v: "winnerId (ex_claim 1 9) = 1" "scores (ex_claim 1 9) = None"
    by (simp_all add: ex_claim_def)
  from submitResult_any_status[OF found cl]
  obtain st' m' where r: "submitResult ex_played 0 1 1 None None 9 = Inr (st', Some m')"
    and rec: "m' = ?m0\<lparr>claims := Some ?cl, status := status m', result := result m'\<rparr>"
    and cons: "\<forall>c1 c2. claims_get ?cl (player1 ?m0) = Some c1
                  \<and> claims_get ?cl (player2 ?m0) = Some c2 \<and> winnerId c1 = winnerId c2 \<longrightarrow>
                  status m' = completed
                  \<and> result m' = Some \<lparr>res_scores = scores c1, res_timestamp = 9\<rparr>
                  \<and> (\<exists>st1. advanceWinner ex_played 0 (winnerId c1) = Inr st1
                         \<and> st' = save_match st1 m')"
    by (elim exE conjE) (rule that)
  from cons c have "status m' = completed
                  \<and> result m' = Some \<lparr>res_scores = scores (ex_claim 1 9), res_timestamp = 9\<rparr>
                  \<and> (\<exists>st1. advanceWinner ex_played 0 (winnerId (ex_claim 1 9)) = Inr st1
                         \<and> st' = save_match st1 m')"
    by blast
  then have w: "status m' = completed"
    "result m' = Some \<lparr>res_scores = None, res_timestamp = 9\<rparr>"
    "\<exists>st1. advanceWinner ex_played 0 1 = Inr st1 \<and> st' = save_match st1 m'"
    unfolding v by blast+
  have "m' = ex_m0\<lparr>claims := Some ?cl, status := completed,
                      result := Some \<lparr>res_scores = None, res_timestamp = 9\<rparr>\<rparr>"
    by (subst rec) (simp add: w ex_defs)
  with r w show "\<exists>st' m'. submitResult ex_played 0 1 1 None None 9 = Inr (st', Some m')
        \<and> m' = ex_m0\<lparr>claims := Some [(1, ex_claim 1 9), (4, ex_claim 1 2)], status := completed,
                      result := Some \<lparr>res_scores = None, res_timestamp = 9\<rparr>\<rparr>
        \<and> (\<exists>st1. advanceWinner ex_played 0 1 = Inr st1 \<and> st' = save_match st1 m')"
    by blast
qed

section \<open>Consensus\<close>

text \<open>
  Claim C2 at a concrete input. In the example bracket user 1 has claimed match 0 for
  user 1; user 4 now submits the agreeing claim. \<open>submitResult\<close> finalizes in that call:
  the result is set, the status is 'completed' and advancement has put user 1 into slot
  player1 of match 2. But \<open>finalizeMatch\<close> never assigns \<open>match.winner\<close>: the winner
  field of the returned and of the stored match is still empty.
\<close>

theorem consensus_leaves_winner_field_empty:
  "submitResults ex_bracket [ex_sub 0 1 1 1] = Inr ex_one_claim
   \<and> submitResult ex_one_claim 0 4 1 None None 2 =
       Inr (ex_bracket\<lparr>db :=
              [ex_m0\<lparr>status := completed,
                result := Some \<lparr>res_scores = None, res_timestamp = 2\<rparr>,
                claims := Some [(1, ex_claim 1 1), (4, ex_claim 1 2)]\<rparr>,
               ex_m1, ex_m2\<lparr>player1 := Some 1\<rparr>]\<rparr>,
            Some (ex_m0\<lparr>status := completed,
                result := Some \<lparr>res_scores = None, res_timestamp = 2\<rparr>,
                claims := Some [(1, ex_claim 1 1), (4, ex_claim 1 2)]\<rparr>))
   \<and> winner (ex_m0\<lparr>status := completed,
                result := Some \<lparr>res_scores = None, res_timestamp = 2\<rparr>,
                claims := Some [(1, ex_claim 1 1), (4, ex_claim 1 2)]\<rparr>) = None"
  by (simp add: ex_defs run_defs)

section \<open>Submissions by non-participants\<close>

text \<open>
  Claim C3, as stated, fails. Match 0 of the example bracket is played by users 1 and 4.
  A submission by user 9 does not fail: the claim is recorded under key 9 and the match
  goes to 'awaiting_confirmation'.
\<close>

theorem outsider_claim_recorded_counterexample:
  "getMatch (db ex_bracket) 0 = Some ex_m0
   \<and> player1 ex_m0 = Some 1 \<and> player2 ex_m0 = Some 4
   \<and> submitResult ex_bracket 0 9 1 None None 1 =
       Inr (ex_bracket\<lparr>db :=
              [ex_m0\<lparr>status := awaiting_confirmation, claims := Some [(9, ex_claim 1 1)]\<rparr>,
               ex_m1, ex_m2]\<rparr>,
            Some (ex_m0\<lparr>status := awaiting_confirmation, claims := Some [(9, ex_claim 1 1)]\<rparr>))"
  by (simp add: ex_defs run_defs)

text \<open>
  Claim C3, amended. \<open>submitResult\<close> does not check the submitter: for every stored
  match, a submission by any id, slot participant or not, returns the match and is
  recorded in the stored match under that id. The only check is the authorization test of
  the HTTP handler: a requester who is not an admin and is in neither slot of the match is
  answered 403 'Not authorized to submit results', and the bracket is left as it was.
\<close>

theorem submitter_checked_only_by_handler:
  "(\<forall>m0. getMatch (db st) matchId = Some m0 \<longrightarrow>
      (\<exists>st' m' d. submitResult st matchId userId wId sc prf now = Inr (st', Some m')
         \<and> getMatch (db st') matchId = Some d
         \<and> claims d = claims m'
         \<and> claims_get (the (claims d)) (Some userId)
              = Some \<lparr>winnerId = wId, scores = sc, claim_proof = prf, timestamp = now\<rparr>))
   \<and> (role req_user \<noteq> ''admin''
        \<and> (\<forall>m. getMatch (db st) matchId = Some m \<longrightarrow>
              player1 m \<noteq> Some (user_id req_user) \<and> player2 m \<noteq> Some (user_id req_user)) \<longrightarrow>
        post_match_result (Some st) matchId req_user body_winnerId body_scores now
          = ((403, ''Not authorized to submit results''), Some st))"
proof (intro conjI allI impI)
  fix m0
  assume found: "getMatch (db st) matchId = Some m0"
  define cl where "cl = record_claim m0 userId
      \<lparr>winnerId = wId, scores = sc, claim_proof = prf, timestamp = now\<rparr>"
  obtain st1 m' where r: "submitResult st matchId userId wId sc prf now = Inr (save_match st1 m', Some m')"
    and m': "oid m' = matchId" "claims m' = Some cl"
    and out: "(case (claims_get cl (player1 m0), claims_get cl (player2 m0)) of
                 (Some c1, Some c2) \<Rightarrow>
                   if winnerId c1 = winnerId c2
                   then status m' = completed
                        \<and> result m' = Some \<lparr>res_scores = scores c1,
                                             res_timestamp = now\<rparr>
                        \<and> advanceWinner st matchId (winnerId c1) = Inr st1
                   else status m' = dispute \<and> result m' = result m0 \<and> st1 = st
               | _ \<Rightarrow> status m' = awaiting_confirmation \<and> result m' = result m0 \<and> st1 = st)"
    using submitResult_found[OF found cl_def] by blast
  have "st1 = st \<or> (\<exists>w. advanceWinner st matchId w = Inr st1)"
    using out by (auto split: option.splits if_splits)
  then have "getMatch (db st1) matchId \<noteq> None"
    using advanceWinner_keeps[of st matchId _ st1 matchId] found by auto
  then obtain d where d: "getMatch (db (save_match st1 m')) matchId = Some d" "claims d = Some cl"
    using m' by (auto simp: getMatch_save_match)
  have "claims_get (the (claims d)) (Some userId)
              = Some \<lparr>winnerId = wId, scores = sc, claim_proof = prf, timestamp = now\<rparr>"
    using d by (simp add: claims_get_def cl_def map_of_record_claim)
  then show "\<exists>st' m' d. submitResult st matchId userId wId sc prf now = Inr (st', Some m')
         \<and> getMatch (db st') matchId = Some d
         \<and> claims d = claims m'
         \<and> claims_get (the (claims d)) (Some userId)
              = Some \<lparr>winnerId = wId, scores = sc, claim_proof = prf, timestamp = now\<rparr>"
    using r d m' by auto
next
  assume "role req_user \<noteq> ''admin''
        \<and> (\<forall>m. getMatch (db st) matchId = Some m \<longrightarrow>
              player1 m \<noteq> Some (user_id req_user) \<and> player2 m \<noteq> Some (user_id req_user))"
  then show "post_match_result (Some st) matchId req_user body_winnerId body_scores now
          = ((403, ''Not authorized to submit results''), Some st)"
    by (simp add: post_match_result_def promise_truthy_def promise_player_id_def)
qed

theorem submitter_checked_only_by_handler_witness:
  "getMatch (db ex_bracket) 0 = Some ex_m0
   \<and> player1 ex_m0 \<noteq> Some 9 \<and> player2 ex_m0 \<noteq> Some 9
   \<and> user_id ex_outsider = 9 \<and> role ex_outsider \<noteq> ''admin''
   \<and> (\<exists>st' m' d. submitResult ex_bracket 0 9 1 None None 1 = Inr (st', Some m')
         \<and> getMatch (db st') 0 = Some d
         \<and> claims_get (the (claims d)) (Some 9) = Some (ex_claim 1 1))
   \<and> post_match_result (Some ex_bracket) 0 ex_outsider 1 1 1
        = ((403, ''Not authorized to submit results''), Some ex_bracket)"
proof -
  have found: "getMatch (db ex_bracket) 0 = Some ex_m0"
    by (simp add: ex_defs getMatch_def)
  have pl: "player1 ex_m0 \<noteq> Some 9 \<and> player2 ex_m0 \<noteq> Some 9"
    "user_id ex_outsider = 9" "role ex_outsider \<noteq> ''admin''"
    by (simp_all add: ex_defs)
  note inst = submitter_checked_only_by_handler [of ex_bracket 0 9 1 None None 1 ex_outsider 1 1]
  have a: "\<exists>st' m' d. submitResult ex_bracket 0 9 1 None None 1 = Inr (st', Some m')
         \<and> getMatch (db st') 0 = Some d
         \<and> claims_get (the (claims d)) (Some 9) = Some (ex_claim 1 1)"
    using inst found by (auto simp: ex_claim_def)
  have b: "post_match_result (Some ex_bracket) 0 ex_outsider 1 1 1
        = ((403, ''Not authorized to submit results''), Some ex_bracket)"
    using inst found pl by simp
  show ?thesis using found pl a b by blast
qed

section \<open>Size of the claims map\<close>

text \<open>
  Claim C9, as stated, fails. Users 1, 4 and 9 each claim match 0 of the example bracket
  (played by 1 and 4) for themselves; afterwards its claims map holds three entries.
\<close>

theorem three_claims_on_one_match_counterexample:
  "submitResults ex_bracket [ex_sub 0 1 1 1, ex_sub 0 4 4 2, ex_sub 0 9 9 3] = Inr ex_crowded
   \<and> claim_keys ex_crowded 0 = [1, 4, 9]
   \<and> length (claim_keys ex_crowded 0) = 3"
  by (simp add: ex_defs run_defs claim_keys_def)

text \<open>
  Claim C9, amended. Every run of \<open>submitResult\<close> calls returns, and afterwards the claims
  map of every stored match holds its former keys and one key per distinct id that
  submitted for that match, each key once. So it holds at most 2 entries as long as its
  keys and the submitters are among two ids (the two slot participants, say), and more
  when further ids submit. A single call stores the submitter's claim under the
  submitter's id and adds an entry only when that id had none: a resubmission overwrites.
\<close>

theorem one_claim_per_submitter:
  "\<exists>st'. submitResults st subs = Inr st'
     \<and> (\<forall>j. getMatch (db st) j \<noteq> None \<longrightarrow>
            set (claim_keys st' j) =
              set (claim_keys st j) \<union> {s_userId s |s. s \<in> set subs \<and> s_matchId s = j})
     \<and> (\<forall>j. distinct (claim_keys st j) \<longrightarrow> distinct (claim_keys st' j))
     \<and> (\<forall>j a b. distinct (claim_keys st j) \<and> set (claim_keys st j) \<subseteq> {a, b}
            \<and> (\<forall>s \<in> set subs. s_matchId s = j \<longrightarrow> s_userId s = a \<or> s_userId s = b) \<longrightarrow>
            length (claim_keys st' j) \<le> 2)
     \<and> (\<forall>s m0. subs = [s] \<and> getMatch (db st) (s_matchId s) = Some m0 \<longrightarrow>
            (\<exists>d cl. getMatch (db st') (s_matchId s) = Some d \<and> claims d = Some cl
               \<and> map_of cl (s_userId s)
                    = Some \<lparr>winnerId = s_winnerId s, scores = s_scores s,
                            claim_proof = s_proof s, timestamp = s_now s\<rparr>
               \<and> length cl = (if s_userId s \<in> set (claim_keys st (s_matchId s))
                               then length (claim_keys st (s_matchId s))
                               else Suc (length (claim_keys st (s_matchId s))))))"
proof -
  obtain st' where run: "submitResults st subs = Inr st'"
    and ex: "\<And>j. (getMatch (db st') j = None) = (getMatch (db st) j = None)"
    and keys: "\<And>j. getMatch (db st) j \<noteq> None \<Longrightarrow>
            set (claim_keys st' j) =
              set (claim_keys st j) \<union> {s_userId s |s. s \<in> set subs \<and> s_matchId s = j}"
    and dist: "\<And>j. distinct (claim_keys st j) \<Longrightarrow> distinct (claim_keys st' j)"
    using submitResults_keys[of st subs] by blast
  have two: "length (claim_keys st' j) \<le> 2"
    if h: "distinct (claim_keys st j) \<and> set (claim_keys st j) \<subseteq> {a, b} \<and>
           (\<forall>s \<in> set subs. s_matchId s = j \<longrightarrow> s_userId s = a \<or> s_userId s = b)" for j a b
  proof (cases "getMatch (db st) j")
    case None
    then have "getMatch (db st') j = None" using ex[of j] by simp
    then show ?thesis by (simp add: claim_keys_def)
  next
    case (Some m)
    then have "set (claim_keys st' j) \<subseteq> {a, b}"
      using keys[of j] h by auto
    then have "card (set (claim_keys st' j)) \<le> card {a, b}"
      by (intro card_mono) auto
    moreover have "card {a, b} \<le> 2" by (simp add: card_insert_if)
    moreover have "distinct (claim_keys st' j)" using dist[of j] h by simp
    ultimately show ?thesis by (simp add: distinct_card)
  qed
  have one: "\<exists>d cl. getMatch (db st') (s_matchId s) = Some d \<and> claims d = Some cl
               \<and> map_of cl (s_userId s)
                    = Some \<lparr>winnerId = s_winnerId s, scores = s_scores s,
                            claim_proof = s_proof s, timestamp = s_now s\<rparr>
               \<and> length cl = (if s_userId s \<in> set (claim_keys st (s_matchId s))
                               then length (claim_keys st (s_matchId s))
                               else Suc (length (claim_keys st (s_matchId s))))"
    if h: "subs = [s] \<and> getMatch (db st) (s_matchId s) = Some m0" for s m0
  proof -
    define c where "c = \<lparr>winnerId = s_winnerId s, scores = s_scores s,
                            claim_proof = s_proof s, timestamp = s_now s\<rparr>"
    define cl where "cl = record_claim m0 (s_userId s) c"
    have found: "getMatch (db st) (s_matchId s) = Some m0" using h by simp
    obtain st1 m' where r: "submitResult st (s_matchId s) (s_userId s) (s_winnerId s) (s_scores s)
          (s_proof s) (s_now s) = Inr (save_match st1 m', Some m')"
      and m': "oid m' = s_matchId s" "claims m' = Some cl"
      and out: "(case (claims_get cl (player1 m0), claims_get cl (player2 m0)) of
                 (Some c1, Some c2) \<Rightarrow>
                   if winnerId c1 = winnerId c2
                   then status m' = completed
                        \<and> result m' = Some \<lparr>res_scores = scores c1,
                                             res_timestamp = s_now s\<rparr>
                        \<and> advanceWinner st (s_matchId s) (winnerId c1) = Inr st1
                   else status m' = dispute \<and> result m' = result m0 \<and> st1 = st
               | _ \<Rightarrow> status m' = awaiting_confirmation \<and> result m' = result m0 \<and> st1 = st)"
      using submitResult_found[OF found, of cl "s_userId s" "s_winnerId s" "s_scores s"
          "s_proof s" "s_now s"] by (auto simp: cl_def c_def)
    have st': "st' = save_match st1 m'" using run r h by simp
    have "st1 = st \<or> (\<exists>w. advanceWinner st (s_matchId s) w = Inr st1)"
      using out by (auto split: option.splits if_splits)
    then have "getMatch (db st1) (s_matchId s) \<noteq> None"
      using advanceWinner_keeps[of st "s_matchId s" _ st1 "s_matchId s"] found by auto
    then obtain d where d: "getMatch (db st') (s_matchId s) = Some d" "claims d = Some cl"
      using m' st' by (auto simp: getMatch_save_match)
    have "map_of cl (s_userId s) = Some c"
      by (simp add: cl_def map_of_record_claim)
    moreover have "length cl = (if s_userId s \<in> set (claim_keys st (s_matchId s))
                               then length (claim_keys st (s_matchId s))
                               else Suc (length (claim_keys st (s_matchId s))))"
      unfolding cl_def by (rule length_record_claim[OF found])
    ultimately show ?thesis using d by (auto simp: c_def)
  qed
  show ?thesis
    apply (rule exI[of _ st'])
    using run keys dist two one by blast
qed

theorem one_claim_per_submitter_witness:
  "getMatch (db ex_one_claim) 0 =
      Some (ex_m0\<lparr>status := awaiting_confirmation, claims := Some [(1, ex_claim 1 1)]\<rparr>)
   \<and> claim_keys ex_one_claim 0 = [1]
   \<and> (\<exists>st'. submitResults ex_one_claim [ex_sub 0 1 4 6] = Inr st'
          \<and> set (claim_keys st' 0) = {1}
          \<and> distinct (claim_keys st' 0)
          \<and> length (claim_keys st' 0) \<le> 2
          \<and> (\<exists>d cl. getMatch (db st') 0 = Some d \<and> claims d = Some cl
                 \<and> map_of cl 1 = Some (ex_claim 4 6) \<and> length cl = 1))"
proof -
  let ?m0 = "ex_m0\<lparr>status := awaiting_confirmation, claims := Some [(1, ex_claim 1 1)]\<rparr>"
  have found: "getMatch (db ex_one_claim) 0 = Some ?m0"
    by (simp add: ex_defs getMatch_def)
  have keys: "claim_keys ex_one_claim 0 = [1]"
    by (simp add: ex_defs claim_keys_def getMatch_def)
  have sub: "s_matchId (ex_sub 0 1 4 6) = 0" "s_userId (ex_sub 0 1 4 6) = 1"
    "\<lparr>winnerId = s_winnerId (ex_sub 0 1 4 6), scores = s_scores (ex_sub 0 1 4 6),
      claim_proof = s_proof (ex_sub 0 1 4 6), timestamp = s_now (ex_sub 0 1 4 6)\<rparr> = ex_claim 4 6"
    by (simp_all add: ex_sub_def ex_claim_def)
  from one_claim_per_submitter[of ex_one_claim "[ex_sub 0 1 4 6]"]
  obtain st' where run: "submitResults ex_one_claim [ex_sub 0 1 4 6] = Inr st'"
    and a: "\<forall>j. getMatch (db ex_one_claim) j \<noteq> None \<longrightarrow>
            set (claim_keys st' j) =
              set (claim_keys ex_one_claim j)
                \<union> {s_userId s |s. s \<in> set [ex_sub 0 1 4 6] \<and> s_matchId s = j}"
    and b: "\<forall>j. distinct (claim_keys ex_one_claim j) \<longrightarrow> distinct (claim_keys st' j)"
    and c: "\<forall>j a b. distinct (claim_keys ex_one_claim j) \<and> set (claim_keys ex_one_claim j) \<subseteq> {a, b}
            \<and> (\<forall>s \<in> set [ex_sub 0 1 4 6]. s_matchId s = j \<longrightarrow> s_userId s = a \<or> s_userId s = b) \<longrightarrow>
            length (claim_keys st' j) \<le> 2"
    and d: "\<forall>s m0. [ex_sub 0 1 4 6] = [s] \<and> getMatch (db ex_one_claim) (s_matchId s) = Some m0 \<longrightarrow>
            (\<exists>d cl. getMatch (db st') (s_matchId s) = Some d \<and> claims d = Some cl
               \<and> map_of cl (s_userId s)
                    = Some \<lparr>winnerId = s_winnerId s, scores = s_scores s,
                            claim_proof = s_proof s, timestamp = s_now s\<rparr>
               \<and> length cl = (if s_userId s \<in> set (claim_keys ex_one_claim (s_matchId s))
                               then length (claim_keys ex_one_claim (s_matchId s))
                               else Suc (length (claim_keys ex_one_claim (s_matchId s)))))"
    by blast
  have a0: "set (claim_keys st' 0) = {1}"
    using a[rule_format, of 0] found keys sub by auto
  have b0: "distinct (claim_keys st' 0)"
    using b[rule_format, of 0] keys by simp
  have c0: "length (claim_keys st' 0) \<le> 2"
    using c[rule_format, of 0 1 4] keys sub by simp
  have d0: "\<exists>d cl. getMatch (db st') 0 = Some d \<and> claims d = Some cl
                 \<and> map_of cl 1 = Some (ex_claim 4 6) \<and> length cl = 1"
    using d[rule_format, of "ex_sub 0 1 4 6" ?m0] found keys sub by simp
  show ?thesis using found keys run a0 b0 c0 d0 by blast
qed

section \<open>The linking loops in closed form\<close>

declare linkRound.simps [simp del]

declare subsequentRounds.simps [simp del]

lemma linkRound_closed:
  assumes "cur = [s..<s + len]" and "s + len \<le> length a"
  shows "linkRound t newId r cur i a nx =
           (linkedRound t newId r s len i a,
            nx @ [length a..<length a + (len - i + 1) div 2])"
  using assms
proof (induction t newId r cur i a nx rule: linkRound.induct)
  case (1 t newId r cur i a nx)
  have len: "length cur = len" using "1.prems" by simp
  show ?case
  proof (cases "i < length cur")
    case False
    then have "(len - i + 1) div 2 = 0" using len by simp
    moreover have "linkRound t newId r cur i a nx = (a, nx)"
      using False by (subst linkRound.simps) simp
    moreover have "map (\<lambda>x. if s + i \<le> x \<and> x < s + len
                 then linked newId (length a) (x - (s + i)) (a ! x)
                 else a ! x) [0..<length a] = map (\<lambda>x. a ! x) [0..<length a]"
      using False len by (intro map_cong) auto
    ultimately show ?thesis
      by (simp add: linkedRound_def map_nth)
  next
    case True
    define L where "L = length a"
    define m where "m = placeholderMatch t r (newId L)"
    define a1 where "a1 = a[cur ! i := link (oid m) SlotPlayer1 (a ! (cur ! i))]"
    define a2 where "a2 = (if i + 1 < length cur
                  then a1[cur ! (i + 1) := link (oid m) SlotPlayer2 (a1 ! (cur ! (i + 1)))]
                  else a1)"
    have step: "linkRound t newId r cur i a nx =
                linkRound t newId r cur (i + 2) (a2 @ [m]) (nx @ [L])"
      using True by (subst linkRound.simps) (simp add: Let_def a2_def a1_def m_def L_def)
    have la2: "length a2 = L" by (simp add: a2_def a1_def L_def)
    have ih: "linkRound t newId r cur (i + 2) (a2 @ [m]) (nx @ [L]) =
           (linkedRound t newId r s len (i + 2) (a2 @ [m]),
            (nx @ [L]) @ [length (a2 @ [m])..<length (a2 @ [m]) + (len - (i + 2) + 1) div 2])"
      using "1.IH"[OF True m_def[unfolded L_def] a1_def a2_def] "1.prems" la2
      by (simp add: L_def)
    have il: "i < len" using True len by simp
    have q: "(len - i + 1) div 2 = Suc ((len - (i + 2) + 1) div 2)"
      using il by presburger
    have curi: "cur ! i = s + i" using "1.prems"(1) il by simp
    have curi1: "i + 1 < len \<Longrightarrow> cur ! (i + 1) = s + i + 1" using "1.prems"(1) by simp
    have sl: "s + len \<le> L" using "1.prems"(2) by (simp add: L_def)
    have oidm: "oid m = newId L" by (simp add: m_def placeholderMatch_def)
    have a2nth: "a2 ! x = (if x = s + i then linked newId L 0 (a ! x)
                           else if x = s + i + 1 \<and> i + 1 < len then linked newId L 1 (a ! x)
                           else a ! x)" if "x < L" for x
      using that il sl curi curi1 len
      by (auto simp: a2_def a1_def linked_def oidm nth_list_update L_def)
    have nums: "[L..<L + (len - i + 1) div 2] = L # [L + 1..<L + 1 + (len - (i + 2) + 1) div 2]"
      unfolding q by (simp add: upt_conv_Cons)
    have lists: "linkedRound t newId r s len (i + 2) (a2 @ [m]) = linkedRound t newId r s len i a"
    proof (rule nth_equalityI)
      show "length (linkedRound t newId r s len (i + 2) (a2 @ [m])) =
            length (linkedRound t newId r s len i a)"
        using q la2 by (simp add: linkedRound_def L_def)
    next
      fix x
      assume "x < length (linkedRound t newId r s len (i + 2) (a2 @ [m]))"
      then have xb: "x < L + 1 + (len - (i + 2) + 1) div 2"
        using la2 by (simp add: linkedRound_def)
      consider "x < L" | "x = L" | "L < x" by linarith
      then show "linkedRound t newId r s len (i + 2) (a2 @ [m]) ! x =
                 linkedRound t newId r s len i a ! x"
      proof cases
        case 1
        have lhs: "linkedRound t newId r s len (i + 2) (a2 @ [m]) ! x =
              (if s + (i + 2) \<le> x \<and> x < s + len
               then linked newId (L + 1) (x - (s + (i + 2))) (a2 ! x) else a2 ! x)"
          using 1 la2 by (simp add: linkedRound_def nth_append)
        have rhs: "linkedRound t newId r s len i a ! x =
              (if s + i \<le> x \<and> x < s + len then linked newId L (x - (s + i)) (a ! x) else a ! x)"
          using 1 by (simp add: linkedRound_def nth_append L_def)
        have far: "linked newId (L + 1) (x - (s + (i + 2))) (a ! x) = linked newId L (x - (s + i)) (a ! x)"
          if "s + (i + 2) \<le> x"
        proof -
          have e1: "L + 1 + (x - (s + (i + 2))) div 2 = L + (x - (s + i)) div 2"
            using that by presburger
          have e2: "even (x - (s + (i + 2))) = even (x - (s + i))"
            using that by presburger
          show ?thesis unfolding linked_def e1 e2 ..
        qed
        consider "x < s + i" | "x = s + i" | "x = s + i + 1" | "s + (i + 2) \<le> x"
          by linarith
        then show ?thesis
        proof cases
          case 1
          then show ?thesis unfolding lhs rhs using a2nth[OF \<open>x < L\<close>] by simp
        next
          case 2
          then show ?thesis unfolding lhs rhs using a2nth[OF \<open>x < L\<close>] il by simp
        next
          case 3
          show ?thesis
          proof (cases "i + 1 < len")
            case True
            then show ?thesis unfolding lhs rhs using a2nth[OF \<open>x < L\<close>] 3 by simp
          next
            case False
            then show ?thesis unfolding lhs rhs using a2nth[OF \<open>x < L\<close>] 3 by simp
          qed
        next
          case 4
          show ?thesis
          proof (cases "x < s + len")
            case True
            have same: "a2 ! x = a ! x" using a2nth[OF \<open>x < L\<close>] 4 by simp
            have l: "linkedRound t newId r s len (i + 2) (a2 @ [m]) ! x =
                     linked newId (L + 1) (x - (s + (i + 2))) (a ! x)"
              unfolding lhs using True 4 same by simp
            have r: "linkedRound t newId r s len i a ! x = linked newId L (x - (s + i)) (a ! x)"
              unfolding rhs using True 4 by simp
            show ?thesis unfolding l r by (rule far[OF 4])
          next
            case False
            then show ?thesis unfolding lhs rhs using a2nth[OF \<open>x < L\<close>] 4 by simp
          qed
        qed
      next
        case 2
        have "linkedRound t newId r s len (i + 2) (a2 @ [m]) ! x = m"
          using 2 la2 sl by (simp add: linkedRound_def nth_append)
        moreover have "linkedRound t newId r s len i a ! x = m"
          using 2 q by (simp add: linkedRound_def nth_append L_def m_def)
        ultimately show ?thesis by simp
      next
        case 3
        define y where "y = x - (L + 1)"
        have y: "x = L + 1 + y" "y < (len - (i + 2) + 1) div 2"
          using 3 xb by (simp_all add: y_def)
        have "linkedRound t newId r s len (i + 2) (a2 @ [m]) ! x =
              placeholderMatch t r (newId (L + 1 + y))"
          using y la2 by (simp add: linkedRound_def nth_append)
        moreover have "linkedRound t newId r s len i a ! x =
              placeholderMatch t r (newId (L + 1 + y))"
          using y q by (simp add: linkedRound_def nth_append L_def del: upt_Suc)
        ultimately show ?thesis by simp
      qed
    qed
    show ?thesis
      unfolding step ih lists using nums la2 by (simp add: L_def)
  qed
qed

lemma placeholder_like_self: "placeholder_like t r i (placeholderMatch t r i)"
  unfolding placeholder_like_def
  by (rule exI[of _ None], rule exI[of _ None]) (simp add: placeholderMatch_def)

lemma placeholder_like_linked:
  "placeholder_like t r i m \<Longrightarrow> placeholder_like t r i (linked newId L p m)"
  unfolding placeholder_like_def linked_def link_def by (elim exE) (simp, blast)

lemma round_placeholder_like: "placeholder_like t r i m \<Longrightarrow> round_m m = r"
  unfolding placeholder_like_def placeholderMatch_def by auto

lemma count_round_all:
  "(\<And>m. m \<in> set ms \<Longrightarrow> round_m m = r) \<Longrightarrow>
   count_round r' ms = (if r' = r then length ms else 0)"
  unfolding count_round_def by (induction ms) auto

lemma count_round_append: "count_round r (xs @ ys) = count_round r xs + count_round r ys"
  by (simp add: count_round_def)

lemma linkedRound_length:
  "length (linkedRound t newId r s len i a) = length a + (len - i + 1) div 2"
  by (simp add: linkedRound_def)

lemma linkedRound_nth_old:
  "x < length a \<Longrightarrow> linkedRound t newId r s len i a ! x =
     (if s + i \<le> x \<and> x < s + len then linked newId (length a) (x - (s + i)) (a ! x) else a ! x)"
  by (simp add: linkedRound_def nth_append)

lemma linkedRound_nth_new:
  "y < (len - i + 1) div 2 \<Longrightarrow>
   linkedRound t newId r s len i a ! (length a + y) = placeholderMatch t r (newId (length a + y))"
  by (simp add: linkedRound_def nth_append del: upt_Suc)

lemma subsequentRounds_spec:
  "r \<le> R + 1 \<Longrightarrow> d = R + 1 - r \<Longrightarrow> length a = s + 2 ^ (R + 1 - r) \<Longrightarrow>
   rounds_built t newId R r s a (subsequentRounds t newId R r [s..<s + 2 ^ (R + 1 - r)] a)"
proof (induction d arbitrary: r s a)
  case 0
  then have r: "r = R + 1" by simp
  have "subsequentRounds t newId R r [s..<s + 2 ^ (R + 1 - r)] a = a"
    using r by (subst subsequentRounds.simps) simp
  then show ?case
    using r by (auto simp: rounds_built_def count_round_def)
next
  case (Suc d)
  then have rR: "r \<le> R" by simp
  define len where "len = (2::nat) ^ (R + 1 - r)"
  define q where "q = (2::nat) ^ (R - r)"
  define L where "L = length a"
  have lenq: "len = 2 * q" using rR by (simp add: len_def q_def Suc_diff_le)
  have q': "(len - 0 + 1) div 2 = q" using lenq by simp
  have q2: "q = 2 ^ (R + 1 - (r + 1))" by (simp add: q_def)
  have La: "L = s + len" using Suc.prems by (simp add: L_def len_def)
  define a' where "a' = linkedRound t newId r s len 0 a"
  have la': "length a' = L + q"
    unfolding a'_def linkedRound_length q' L_def ..
  have link: "linkRound t newId r [s..<s + len] 0 a [] = (a', [L..<L + q])"
    using linkRound_closed[of "[s..<s + len]" s len a t newId r 0 "[]"] La q'
    by (simp add: a'_def L_def)
  define al where "al = subsequentRounds t newId R (r + 1) [L..<L + q] a'"
  have unf: "subsequentRounds t newId R r [s..<s + 2 ^ (R + 1 - r)] a = al"
    using rR link by (subst subsequentRounds.simps) (simp add: al_def len_def)
  have ih: "rounds_built t newId R (r + 1) L a' al"
    unfolding al_def q2
    by (rule Suc.IH) (use Suc.prems rR la' in \<open>simp_all add: q2\<close>)
  have ih_len: "length al = L + q + q - 1"
    using ih la' by (simp add: rounds_built_def q_def)
  have ih_old: "al ! x = a' ! x" if "x < L" for x
    using ih that by (simp add: rounds_built_def)
  have ih_blk: "al ! (L + p) =
      (if r + 1 \<le> R then linked newId (L + q) p (a' ! (L + p)) else a' ! (L + p))" if "p < q" for p
    using ih that la' by (simp add: rounds_built_def q_def)
  have ih_new: "\<exists>r'. r + 1 \<le> r' \<and> r' \<le> R \<and> placeholder_like t r' (newId x) (al ! x)"
    if "L + q \<le> x" "x < length al" for x
    using ih that la' by (simp add: rounds_built_def)
  have ih_cnt: "count_round r' (drop (L + q) al) =
      (if r + 1 \<le> r' \<and> r' \<le> R then 2 ^ (R - r') else 0)" for r'
    using ih la' by (simp add: rounds_built_def)
  have q_pos: "0 < q" by (simp add: q_def)
  have c1: "length al = length a + 2 ^ (R + 1 - r) - 1"
  proof -
    have "(2::nat) ^ (R + 1 - r) = 2 * q" using lenq by (simp add: len_def)
    then show ?thesis using ih_len by (simp add: L_def)
  qed
  have c2: "al ! x = a ! x" if "x < s" for x
  proof -
    have "x < L" using that La by simp
    then show ?thesis
      using ih_old[of x] that by (simp add: a'_def linkedRound_nth_old L_def)
  qed
  have c3: "al ! (s + p) = linked newId (length a) p (a ! (s + p))" if "p < len" for p
  proof -
    have "s + p < L" using that La by simp
    then show ?thesis
      using ih_old[of "s + p"] that by (simp add: a'_def linkedRound_nth_old L_def)
  qed
  have c4: "placeholder_like t r (newId (L + y)) (al ! (L + y))" if "y < q" for y
  proof -
    have "a' ! (L + y) = placeholderMatch t r (newId (L + y))"
      unfolding a'_def L_def using that q' by (intro linkedRound_nth_new) simp
    then show ?thesis
      using ih_blk[OF that]
      by (auto intro: placeholder_like_linked placeholder_like_self)
  qed
  have c5: "\<exists>r'. r \<le> r' \<and> r' \<le> R \<and> placeholder_like t r' (newId x) (al ! x)"
    if h1: "L \<le> x" and h2: "x < length al" for x
  proof (cases "x < L + q")
    case True
    then have "x = L + (x - L)" "x - L < q" using h1 by simp_all
    then show ?thesis using c4[of "x - L"] rR by auto
  next
    case False
    then obtain r' where "r + 1 \<le> r'" "r' \<le> R" "placeholder_like t r' (newId x) (al ! x)"
      using ih_new[of x] h2 by auto
    then have "r \<le> r' \<and> r' \<le> R \<and> placeholder_like t r' (newId x) (al ! x)" by simp
    then show ?thesis by (rule exI)
  qed
  have c6: "count_round r' (drop L al) = (if r \<le> r' \<and> r' \<le> R then 2 ^ (R - r') else 0)" for r'
  proof -
    have split: "drop L al = take q (drop L al) @ drop (L + q) al"
      by (metis add.commute append_take_drop_id drop_drop)
    have lt: "length (take q (drop L al)) = q"
      using ih_len q_pos by simp
    have "round_m m = r" if "m \<in> set (take q (drop L al))" for m
    proof -
      from that obtain y where "y < length (take q (drop L al))" "m = take q (drop L al) ! y"
        by (metis in_set_conv_nth)
      then have "y < q" "m = al ! (L + y)" using lt ih_len by simp_all
      then show ?thesis using c4[of y] by (simp add: round_placeholder_like)
    qed
    then have "count_round r' (take q (drop L al)) = (if r' = r then q else 0)"
      using count_round_all[of "take q (drop L al)" r r'] lt by simp
    then have "count_round r' (drop L al) =
        (if r' = r then q else 0) + (if r + 1 \<le> r' \<and> r' \<le> R then 2 ^ (R - r') else 0)"
      using ih_cnt[of r'] count_round_append[of r' "take q (drop L al)" "drop (L + q) al"] split
      by simp
    then show ?thesis using rR by (auto simp: q_def)
  qed
  show ?case
    unfolding unf rounds_built_def
    using c1 c2 c3 c4 c5 c6 rR by (simp add: L_def len_def q_def)
qed

section \<open>Fresh ids in the collection\<close>

lemma getMatch_nth:
  "x < length ms \<Longrightarrow> oid (ms ! x) = i \<Longrightarrow> (\<And>j. j < x \<Longrightarrow> oid (ms ! j) \<noteq> i) \<Longrightarrow>
   getMatch ms i = Some (ms ! x)"
  unfolding getMatch_def find_Some_iff by (intro exI[of _ x]) simp

lemma updateOne_nth:
  "x < length ms \<Longrightarrow> oid (ms ! x) = i \<Longrightarrow> (\<And>j. j < x \<Longrightarrow> oid (ms ! j) \<noteq> i) \<Longrightarrow>
   updateOne i f ms = ms[x := f (ms ! x)]"
proof (induction ms arbitrary: x)
  case Nil
  then show ?case by simp
next
  case (Cons d ds)
  show ?case
  proof (cases x)
    case 0
    then show ?thesis using Cons.prems by simp
  next
    case (Suc y)
    have "oid d \<noteq> i" using Cons.prems(3)[of 0] Suc by simp
    moreover have "updateOne i f ds = ds[y := f (ds ! y)]"
    proof (rule Cons.IH)
      show "y < length ds" using Cons.prems(1) Suc by simp
      show "oid (ds ! y) = i" using Cons.prems(2) Suc by simp
      show "oid (ds ! j) \<noteq> i" if "j < y" for j
        using Cons.prems(3)[of "Suc j"] that Suc by simp
    qed
    ultimately show ?thesis using Suc by simp
  qed
qed

text \<open>A collection made of older documents and the new block, whose ids are fresh.\<close>

lemma fresh_oid: "getMatch old i = None \<Longrightarrow> d \<in> set old \<Longrightarrow> oid d \<noteq> i"
  by (auto simp: getMatch_def find_None_iff)

lemma first_with_new_oid:
  assumes "inj newId" and "\<And>y. getMatch old (newId y) = None"
    and "\<And>y. y < length D \<Longrightarrow> oid (D ! y) = newId y" and "x < length D"
  shows "length old + x < length (old @ D)"
    and "oid ((old @ D) ! (length old + x)) = newId x"
    and "\<And>j. j < length old + x \<Longrightarrow> oid ((old @ D) ! j) \<noteq> newId x"
proof -
  show "length old + x < length (old @ D)" using assms(4) by simp
  show "oid ((old @ D) ! (length old + x)) = newId x" using assms(3,4) by simp
  fix j assume j: "j < length old + x"
  show "oid ((old @ D) ! j) \<noteq> newId x"
  proof (cases "j < length old")
    case True
    then have "old ! j \<in> set old" by simp
    then show ?thesis using fresh_oid[OF assms(2)[of x]] True by (simp add: nth_append)
  next
    case False
    then have "j - length old < x" using j by simp
    then have "oid (D ! (j - length old)) = newId (j - length old)" "j - length old \<noteq> x"
      using assms(3,4) by simp_all
    then show ?thesis using False assms(1) by (simp add: nth_append inj_eq)
  qed
qed

lemma getMatch_new:
  assumes "inj newId" and "\<And>y. getMatch old (newId y) = None"
    and "\<And>y. y < length D \<Longrightarrow> oid (D ! y) = newId y" and "x < length D"
  shows "getMatch (old @ D) (newId x) = Some (D ! x)"
  using getMatch_nth[OF first_with_new_oid[OF assms]] by simp

lemma updateOne_new:
  assumes "inj newId" and "\<And>y. getMatch old (newId y) = None"
    and "\<And>y. y < length D \<Longrightarrow> oid (D ! y) = newId y" and "x < length D"
  shows "updateOne (newId x) f (old @ D) = old @ D[x := f (D ! x)]"
  using updateOne_nth[OF first_with_new_oid[OF assms], of f]
  by (simp add: list_update_append)

section \<open>The bye loop in closed form\<close>

lemma oid_filled [simp]: "oid (filled al t j m) = oid m"
  by (simp add: filled_def)

lemma length_byes_advanced [simp]: "length (byes_advanced al k t) = length al"
  by (simp add: byes_advanced_def)

lemma byes_advanced_nth:
  "x < length al \<Longrightarrow> byes_advanced al k t ! x =
     (if k \<le> x \<and> x < k + k div 2 then filled al t (x - k) (al ! x) else al ! x)"
  by (simp add: byes_advanced_def)

lemma oid_byes_advanced:
  "x < length al \<Longrightarrow> oid (byes_advanced al k t ! x) = oid (al ! x)"
  by (simp add: byes_advanced_nth)

lemma filled_skip:
  "\<not> bye (al ! t) \<Longrightarrow> filled al (Suc t) j m = filled al t j m"
proof -
  assume nb: "\<not> bye (al ! t)"
  have a: "(2 * j < Suc t \<and> bye (al ! (2 * j))) = (2 * j < t \<and> bye (al ! (2 * j)))"
    using nb by (cases "2 * j = t") auto
  have b: "(2 * j + 1 < Suc t \<and> bye (al ! (2 * j + 1))) = (2 * j + 1 < t \<and> bye (al ! (2 * j + 1)))"
    using nb by (cases "2 * j + 1 = t") auto
  show ?thesis unfolding filled_def a b ..
qed

lemma filled_other:
  "j \<noteq> t div 2 \<Longrightarrow> filled al (Suc t) j m = filled al t j m"
proof -
  assume ne: "j \<noteq> t div 2"
  have a: "(2 * j < Suc t) = (2 * j < t)" using ne by presburger
  have b: "(2 * j + 1 < Suc t) = (2 * j + 1 < t)" using ne by presburger
  show ?thesis unfolding filled_def a b ..
qed

lemma filled_step:
  assumes "bye (al ! t)" and "winner (al ! t) = Some w"
  shows "schedule_if_full
           (place_winner (Some (if even t then SlotPlayer1 else SlotPlayer2)) (Some w)
              (filled al t (t div 2) m))
         = filled al (Suc t) (t div 2) m"
proof (cases "even t")
  case True
  then obtain j where t: "t = 2 * j" by (auto elim: evenE)
  have j: "t div 2 = j" using t by simp
  show ?thesis
    unfolding j using assms True
    by (simp add: t filled_def place_winner_def schedule_if_full_def)
next
  case False
  then obtain j where t: "t = 2 * j + 1" by (auto elim: oddE)
  have j: "t div 2 = j" using t by simp
  show ?thesis
    unfolding j using assms False
    by (simp add: t filled_def place_winner_def schedule_if_full_def)
qed

lemma filled_start:
  "player1 m = None \<Longrightarrow> player2 m = None \<Longrightarrow> filled al 0 j m = m"
  by (simp add: filled_def schedule_if_full_def)

lemma byes_advanced_skip:
  "\<not> bye (al ! t) \<Longrightarrow> byes_advanced al k (Suc t) = byes_advanced al k t"
  unfolding byes_advanced_def by (simp add: filled_skip)

lemma advanceByes_skip:
  "\<not> bye m \<Longrightarrow> advanceByes st (m # ms) = advanceByes st ms"
  by (auto simp: bye_def split: option.splits)

lemma advanceByes_bye:
  "bye m \<Longrightarrow> winner m = Some w \<Longrightarrow> advanceWinner st (oid m) w = Inr st' \<Longrightarrow>
   advanceByes st (m # ms) = advanceByes st' ms"
  by (simp add: bye_def)

lemma advanceByes_closed:
  assumes inj: "inj newId" and fresh: "\<And>y. getMatch old (newId y) = None"
    and oids: "\<And>x. x < length al \<Longrightarrow> oid (al ! x) = newId x"
    and late: "\<And>x. k \<le> x \<Longrightarrow> x < length al \<Longrightarrow> \<not> bye (al ! x)"
    and early: "\<And>i. i < k \<Longrightarrow> i < length al \<Longrightarrow> bye (al ! i) \<Longrightarrow>
        player1 (al ! i) = winner (al ! i)
        \<and> nextMatchId (al ! i) = Some (newId (k + i div 2))
        \<and> nextMatchSlot (al ! i) = Some (if even i then SlotPlayer1 else SlotPlayer2)
        \<and> i div 2 < k div 2 \<and> k + i div 2 < length al"
  shows "d = length al - t \<Longrightarrow> t \<le> length al \<Longrightarrow> db st = old @ byes_advanced al k t \<Longrightarrow>
         advanceByes st (drop t al) = Inr (st\<lparr>db := old @ byes_advanced al k (length al)\<rparr>)"
proof (induction d arbitrary: t st)
  case 0
  then have "t = length al" by simp
  then show ?case using 0 by simp
next
  case (Suc d)
  then have tl: "t < length al" by simp
  define D where "D = byes_advanced al k t"
  have lD: "length D = length al" by (simp add: D_def)
  have oD: "oid (D ! y) = newId y" if "y < length D" for y
    using that oids by (simp add: D_def oid_byes_advanced)
  have dr: "drop t al = al ! t # drop (Suc t) al"
    using tl by (simp add: Cons_nth_drop_Suc)
  show ?case
  proof (cases "bye (al ! t)")
    case False
    have "advanceByes st (drop t al) = advanceByes st (drop (Suc t) al)"
      unfolding dr using False by (rule advanceByes_skip)
    also have "\<dots> = Inr (st\<lparr>db := old @ byes_advanced al k (length al)\<rparr>)"
    proof (rule Suc.IH)
      show "d = length al - Suc t" using Suc.prems by simp
      show "Suc t \<le> length al" using tl by simp
      show "db st = old @ byes_advanced al k (Suc t)"
        using Suc.prems(3) byes_advanced_skip[OF False] by simp
    qed
    finally show ?thesis .
  next
    case True
    then have tk: "t < k" using late[of t] tl by (cases "t < k") auto
    obtain w where w: "winner (al ! t) = Some w" using True by (auto simp: bye_def)
    have e: "player1 (al ! t) = Some w"
      "nextMatchId (al ! t) = Some (newId (k + t div 2))"
      "nextMatchSlot (al ! t) = Some (if even t then SlotPlayer1 else SlotPlayer2)"
      "t div 2 < k div 2" "k + t div 2 < length al"
      using early[OF tk tl True] w by simp_all
    define x where "x = k + t div 2"
    define nm where "nm = filled al t (t div 2) (al ! x)"
    define nm' where "nm' = filled al (Suc t) (t div 2) (al ! x)"
    have xl: "x < length D" using e(5) lD by (simp add: x_def)
    have Dt: "D ! t = al ! t" using tl tk by (simp add: D_def byes_advanced_nth)
    have Dx: "D ! x = nm" using e(4,5) by (simp add: D_def byes_advanced_nth x_def nm_def)
    have g1: "getMatch (db st) (newId t) = Some (al ! t)"
      using getMatch_new[OF inj fresh oD, of t] tl lD Dt Suc.prems(3) by (simp add: D_def)
    have g2: "getMatch (db st) (newId x) = Some nm"
      using getMatch_new[OF inj fresh oD, of x] xl Dx Suc.prems(3) by (simp add: D_def)
    have step: "schedule_if_full
           (place_winner (nextMatchSlot (al ! t)) (Some w) nm) = nm'"
      unfolding nm_def nm'_def e(3) using True w by (rule filled_step)
    have upd: "updateOne (newId x) (\<lambda>d. nm') (db st) = old @ D[x := nm']"
      using updateOne_new[OF inj fresh oD xl, of "\<lambda>d. nm'"] Suc.prems(3) by (simp add: D_def)
    have next_D: "D[x := nm'] = byes_advanced al k (Suc t)"
    proof (rule nth_equalityI)
      show "length (D[x := nm']) = length (byes_advanced al k (Suc t))" using lD by simp
    next
      fix y assume "y < length (D[x := nm'])"
      then have yl: "y < length al" using lD by simp
      show "D[x := nm'] ! y = byes_advanced al k (Suc t) ! y"
      proof (cases "y = x")
        case True
        then show ?thesis
          using xl lD e(4) by (simp add: byes_advanced_nth x_def nm'_def)
      next
        case False
        then have "y - k \<noteq> t div 2 \<or> \<not> (k \<le> y)" by (auto simp: x_def)
        then show ?thesis
          using False yl filled_other[of "y - k" t al "al ! y"]
          by (auto simp: D_def byes_advanced_nth)
      qed
    qed
    define st' where "st' = st\<lparr>db := old @ byes_advanced al k (Suc t)\<rparr>"
    have adv: "advanceWinner st (oid (al ! t)) w = Inr st'"
      using g1 g2 e(1,2) step upd next_D oids[OF tl]
      by (simp add: advanceWinner_def x_def st'_def)
    have "advanceByes st (drop t al) = advanceByes st' (drop (Suc t) al)"
      unfolding dr using True w adv by (rule advanceByes_bye)
    also have "\<dots> = Inr (st'\<lparr>db := old @ byes_advanced al k (length al)\<rparr>)"
    proof (rule Suc.IH)
      show "d = length al - Suc t" using Suc.prems by simp
      show "Suc t \<le> length al" using tl by simp
      show "db st' = old @ byes_advanced al k (Suc t)" by (simp add: st'_def)
    qed
    also have "st'\<lparr>db := old @ byes_advanced al k (length al)\<rparr>
             = st\<lparr>db := old @ byes_advanced al k (length al)\<rparr>"
      by (simp add: st'_def)
    finally show ?thesis .
  qed
qed

lemma rounds_of_ceillog2: "rounds_of n = ceillog2 n"
  by (simp add: rounds_of_def ceillog2_def)

lemma rounds_of_bounds:
  assumes "2 \<le> n"
  shows "1 \<le> rounds_of n" and "n \<le> 2 ^ rounds_of n" and "2 ^ rounds_of n < 2 * n"
proof -
  have pos: "0 < n" using assms by simp
  show "1 \<le> rounds_of n"
    using ceillog2_ge_iff[OF pos, of 1] assms by (simp add: rounds_of_ceillog2)
  show "n \<le> 2 ^ rounds_of n"
    by (simp add: rounds_of_ceillog2 le_two_power_ceillog2)
  show "2 ^ rounds_of n < 2 * n"
    using two_power_ceillog2_gt[OF pos] by (simp add: rounds_of_ceillog2)
qed

lemma half_size:
  assumes "2 \<le> n"
  shows "(size_of n + 1) div 2 = 2 ^ (rounds_of n - 1)"
    and "size_of n = 2 * 2 ^ (rounds_of n - 1)"
    and "2 ^ (rounds_of n - 1) < n"
proof -
  obtain R' where R: "rounds_of n = Suc R'"
    using rounds_of_bounds(1)[OF assms] by (cases "rounds_of n") auto
  have sz: "size_of n = 2 * 2 ^ R'" using assms R by (simp add: size_of_def)
  show "(size_of n + 1) div 2 = 2 ^ (rounds_of n - 1)" using sz R by simp
  show "size_of n = 2 * 2 ^ (rounds_of n - 1)" using sz R by simp
  show "2 ^ (rounds_of n - 1) < n" using rounds_of_bounds(3)[OF assms] R by simp
qed

lemma length_firstRound:
  "2 \<le> length shuffled \<Longrightarrow>
   length (firstRound st newId shuffled) = 2 ^ (rounds_of (length shuffled) - 1)"
  using half_size(1)[of "length shuffled"] by (simp add: firstRound_def)

lemma firstRound_nth:
  assumes "2 \<le> length shuffled" and "i < 2 ^ (rounds_of (length shuffled) - 1)"
  shows "firstRound st newId shuffled ! i =
           firstRoundMatch (this_tournamentId st) shuffled (size_of (length shuffled)) (newId i) i"
  using assms half_size(1)[of "length shuffled"] by (simp add: firstRound_def)

lemma generateBracket_alt:
  "generateBracket st newId shuffled =
     (case advanceByes (st\<lparr>db := db st @ allMatches_of st newId shuffled\<rparr>)
             (allMatches_of st newId shuffled) of
        Inl e \<Rightarrow> Inl e
      | Inr st' \<Rightarrow>
          Inr (st'\<lparr>tournament_doc :=
                     map_option (\<lambda>t. t\<lparr>t_matches := map oid (allMatches_of st newId shuffled),
                                        t_rounds := [1..<rounds_of (length shuffled) + 1],
                                        t_status := ''Active''\<rparr>)
                       (tournament_doc st')\<rparr>,
               allMatches_of st newId shuffled))"
  unfolding generateBracket_def allMatches_of_def firstRound_def Let_def ..

lemma allMatches_built:
  assumes "2 \<le> length shuffled"
  shows "rounds_built (this_tournamentId st) newId (rounds_of (length shuffled)) 2 0
           (firstRound st newId shuffled) (allMatches_of st newId shuffled)"
proof -
  define R where "R = rounds_of (length shuffled)"
  have R1: "1 \<le> R" using rounds_of_bounds(1)[OF assms] by (simp add: R_def)
  have e: "R + 1 - 2 = R - 1" by simp
  have len: "length (firstRound st newId shuffled) = 0 + 2 ^ (R + 1 - 2)"
    using length_firstRound[OF assms] by (simp add: R_def e)
  have "rounds_built (this_tournamentId st) newId R 2 0 (firstRound st newId shuffled)
          (subsequentRounds (this_tournamentId st) newId R 2 [0..<0 + 2 ^ (R + 1 - 2)]
             (firstRound st newId shuffled))"
    by (rule subsequentRounds_spec[OF _ refl len]) (use R1 in simp)
  then show ?thesis
    using len by (simp add: allMatches_of_def R_def)
qed

text \<open>The fields of a round-1 match as created.\<close>

lemma firstRoundMatch_fields:
  fixes t shuffled sz newOid i
  defines "F \<equiv> firstRoundMatch t shuffled sz newOid i"
  assumes "i < length shuffled"
  shows "oid F = newOid" and "round_m F = 1" and "tournamentId F = t"
    and "player1 F = Some (p_id (shuffled ! i))"
    and "player2 F = (if sz - 1 - i < length shuffled
                      then Some (p_id (shuffled ! (sz - 1 - i))) else None)"
    and "winner F = (if sz - 1 - i < length shuffled then None else Some (p_id (shuffled ! i)))"
    and "status F = (if sz - 1 - i < length shuffled then scheduled else completed)"
    and "nextMatchId F = None" and "nextMatchSlot F = None"
    and "claims F = None" and "result F = None"
  using assms(2) by (simp_all add: F_def firstRoundMatch_def nth_or_null_def Let_def)

lemma linked_fields [simp]:
  "oid (linked newId L p m) = oid m" "round_m (linked newId L p m) = round_m m"
  "tournamentId (linked newId L p m) = tournamentId m"
  "player1 (linked newId L p m) = player1 m" "player2 (linked newId L p m) = player2 m"
  "winner (linked newId L p m) = winner m" "status (linked newId L p m) = status m"
  "claims (linked newId L p m) = claims m" "result (linked newId L p m) = result m"
  "nextMatchId (linked newId L p m) = Some (newId (L + p div 2))"
  "nextMatchSlot (linked newId L p m) = Some (if even p then SlotPlayer1 else SlotPlayer2)"
  by (simp_all add: linked_def link_def)

lemma placeholder_like_fields:
  assumes "placeholder_like t r i m"
  shows "oid m = i" and "round_m m = r" and "tournamentId m = t"
    and "player1 m = None" and "player2 m = None"
    and "winner m = None" and "status m = pending" and "claims m = None" and "result m = None"
  using assms unfolding placeholder_like_def placeholderMatch_def by auto

text \<open>The matches of \<open>allMatches\<close> by position, for at least two participants.\<close>

lemma allMatches_length:
  assumes "2 \<le> length shuffled"
  shows "length (allMatches_of st newId shuffled) = 2 ^ rounds_of (length shuffled) - 1"
    and "length (allMatches_of st newId shuffled) = 2 * 2 ^ (rounds_of (length shuffled) - 1) - 1"
proof -
  obtain R' where R: "rounds_of (length shuffled) = Suc R'"
    using rounds_of_bounds(1)[OF assms] by (cases "rounds_of (length shuffled)") auto
  have "length (allMatches_of st newId shuffled) =
        length (firstRound st newId shuffled) + 2 ^ (rounds_of (length shuffled) + 1 - 2) - 1"
    using allMatches_built[OF assms, of st newId] by (simp add: rounds_built_def)
  then have l: "length (allMatches_of st newId shuffled) = 2 ^ R' + 2 ^ R' - 1"
    using length_firstRound[OF assms, of st newId] R by simp
  show "length (allMatches_of st newId shuffled) = 2 ^ rounds_of (length shuffled) - 1"
    using l R by simp
  show "length (allMatches_of st newId shuffled) = 2 * 2 ^ (rounds_of (length shuffled) - 1) - 1"
    using l R by simp
qed

lemma allMatches_first:
  assumes "2 \<le> length shuffled" and "i < 2 ^ (rounds_of (length shuffled) - 1)"
  shows "allMatches_of st newId shuffled ! i =
           (if 2 \<le> rounds_of (length shuffled)
            then linked newId (2 ^ (rounds_of (length shuffled) - 1)) i
                   (firstRound st newId shuffled ! i)
            else firstRound st newId shuffled ! i)"
proof -
  have e: "rounds_of (length shuffled) + 1 - 2 = rounds_of (length shuffled) - 1" by simp
  have "\<forall>p<2 ^ (rounds_of (length shuffled) + 1 - 2).
          allMatches_of st newId shuffled ! (0 + p) =
            (if 2 \<le> rounds_of (length shuffled)
             then linked newId (length (firstRound st newId shuffled)) p
                    (firstRound st newId shuffled ! (0 + p))
             else firstRound st newId shuffled ! (0 + p))"
    using allMatches_built[OF assms(1), of st newId] unfolding rounds_built_def by blast
  then show ?thesis
    using assms(2) length_firstRound[OF assms(1), of st newId] unfolding e by simp
qed

lemma allMatches_later:
  assumes "2 \<le> length shuffled" and "2 ^ (rounds_of (length shuffled) - 1) \<le> x"
    and "x < length (allMatches_of st newId shuffled)"
  shows "\<exists>r'. 2 \<le> r' \<and> r' \<le> rounds_of (length shuffled)
           \<and> placeholder_like (this_tournamentId st) r' (newId x) (allMatches_of st newId shuffled ! x)"
proof -
  have "\<forall>x. length (firstRound st newId shuffled) \<le> x
            \<and> x < length (allMatches_of st newId shuffled) \<longrightarrow>
          (\<exists>r'. 2 \<le> r' \<and> r' \<le> rounds_of (length shuffled)
             \<and> placeholder_like (this_tournamentId st) r' (newId x)
                  (allMatches_of st newId shuffled ! x))"
    using allMatches_built[OF assms(1), of st newId] unfolding rounds_built_def by blast
  then show ?thesis
    using assms(2,3) length_firstRound[OF assms(1), of st newId] by simp
qed

lemma allMatches_second:
  assumes "2 \<le> length shuffled" and "2 \<le> rounds_of (length shuffled)"
    and "y < 2 ^ (rounds_of (length shuffled) - 1) div 2"
  shows "placeholder_like (this_tournamentId st) 2
           (newId (2 ^ (rounds_of (length shuffled) - 1) + y))
           (allMatches_of st newId shuffled ! (2 ^ (rounds_of (length shuffled) - 1) + y))"
proof -
  have "rounds_of (length shuffled) = Suc (Suc (rounds_of (length shuffled) - 2))"
    using assms(2) by simp
  then obtain R'' where R: "rounds_of (length shuffled) = Suc (Suc R'')" ..
  have y: "y < 2 ^ (rounds_of (length shuffled) - 2)" using assms(3) R by simp
  have "\<forall>y<2 ^ (rounds_of (length shuffled) - 2). 2 \<le> rounds_of (length shuffled) \<longrightarrow>
          placeholder_like (this_tournamentId st) 2
            (newId (length (firstRound st newId shuffled) + y))
            (allMatches_of st newId shuffled ! (length (firstRound st newId shuffled) + y))"
    using allMatches_built[OF assms(1), of st newId] unfolding rounds_built_def by blast
  then show ?thesis
    using y assms(2) length_firstRound[OF assms(1), of st newId] by simp
qed

section \<open>What generateBracket returns\<close>

lemma bye_firstRoundMatch:
  assumes "i < length shuffled"
  shows "bye (firstRoundMatch t shuffled sz newOid i) = (\<not> sz - 1 - i < length shuffled)"
  using assms by (simp add: bye_def firstRoundMatch_fields)

lemma bye_linked [simp]: "bye (linked newId L p m) = bye m"
  by (simp add: bye_def)

lemma not_bye_placeholder_like: "placeholder_like t r i m \<Longrightarrow> \<not> bye m"
  by (simp add: bye_def placeholder_like_fields)

text \<open>With two participants the single match has both players.\<close>

lemma no_bye_single_round:
  assumes "2 \<le> length shuffled" and "rounds_of (length shuffled) < 2" and "i < 1"
  shows "size_of (length shuffled) - 1 - i < length shuffled"
proof -
  have "rounds_of (length shuffled) = 1"
    using rounds_of_bounds(1)[OF assms(1)] assms(2) by simp
  then have "size_of (length shuffled) = 2" using assms(1) by (auto simp: size_of_def)
  then show ?thesis using assms(1,3) by simp
qed

lemma allMatches_oid:
  assumes "2 \<le> length shuffled" and "x < length (allMatches_of st newId shuffled)"
  shows "oid (allMatches_of st newId shuffled ! x) = newId x"
proof (cases "x < 2 ^ (rounds_of (length shuffled) - 1)")
  case True
  then have "x < length shuffled" using half_size(3)[OF assms(1)] by simp
  then show ?thesis
    using allMatches_first[OF assms(1) True, of st newId] firstRound_nth[OF assms(1) True, of st newId]
    by (simp add: firstRoundMatch_fields)
next
  case False
  then show ?thesis
    using allMatches_later[OF assms(1) _ assms(2)] by (auto simp: placeholder_like_fields)
qed

lemma allMatches_bye:
  assumes n: "2 \<le> length shuffled" and i: "i < 2 ^ (rounds_of (length shuffled) - 1)"
    and b: "bye (allMatches_of st newId shuffled ! i)"
  shows "2 \<le> rounds_of (length shuffled)"
    and "\<not> size_of (length shuffled) - 1 - i < length shuffled"
    and "allMatches_of st newId shuffled ! i =
           linked newId (2 ^ (rounds_of (length shuffled) - 1)) i
             (firstRoundMatch (this_tournamentId st) shuffled (size_of (length shuffled)) (newId i) i)"
proof -
  have il: "i < length shuffled" using half_size(3)[OF n] i by simp
  have bf: "bye (firstRoundMatch (this_tournamentId st) shuffled (size_of (length shuffled)) (newId i) i)"
    using b allMatches_first[OF n i, of st newId] firstRound_nth[OF n i, of st newId]
    by (simp split: if_splits)
  then show nb: "\<not> size_of (length shuffled) - 1 - i < length shuffled"
    using bye_firstRoundMatch[OF il] by simp
  show R2: "2 \<le> rounds_of (length shuffled)"
  proof (rule ccontr)
    assume "\<not> 2 \<le> rounds_of (length shuffled)"
    then have r: "rounds_of (length shuffled) < 2" by simp
    then have "rounds_of (length shuffled) - 1 = 0" by simp
    then have "i < 1" using i by simp
    then show False using no_bye_single_round[OF n r] nb by simp
  qed
  show "allMatches_of st newId shuffled ! i =
           linked newId (2 ^ (rounds_of (length shuffled) - 1)) i
             (firstRoundMatch (this_tournamentId st) shuffled (size_of (length shuffled)) (newId i) i)"
    using allMatches_first[OF n i, of st newId] firstRound_nth[OF n i, of st newId] R2 by simp
qed

lemma byes_advanced_start:
  assumes n: "2 \<le> length shuffled"
  shows "byes_advanced (allMatches_of st newId shuffled) (2 ^ (rounds_of (length shuffled) - 1)) 0
         = allMatches_of st newId shuffled"
proof (rule nth_equalityI)
  show "length (byes_advanced (allMatches_of st newId shuffled)
                 (2 ^ (rounds_of (length shuffled) - 1)) 0)
        = length (allMatches_of st newId shuffled)" by simp
next
  fix x
  assume "x < length (byes_advanced (allMatches_of st newId shuffled)
                 (2 ^ (rounds_of (length shuffled) - 1)) 0)"
  then have xl: "x < length (allMatches_of st newId shuffled)" by simp
  show "byes_advanced (allMatches_of st newId shuffled)
          (2 ^ (rounds_of (length shuffled) - 1)) 0 ! x = allMatches_of st newId shuffled ! x"
  proof (cases "2 ^ (rounds_of (length shuffled) - 1) \<le> x")
    case True
    then obtain r' where "placeholder_like (this_tournamentId st) r' (newId x)
        (allMatches_of st newId shuffled ! x)"
      using allMatches_later[OF n True xl] by blast
    then have "player1 (allMatches_of st newId shuffled ! x) = None"
      "player2 (allMatches_of st newId shuffled ! x) = None"
      by (simp_all add: placeholder_like_fields)
    then show ?thesis using xl by (simp add: byes_advanced_nth filled_start)
  next
    case False
    then show ?thesis using xl by (simp add: byes_advanced_nth)
  qed
qed

lemma advanceByes_allMatches:
  assumes n: "2 \<le> length shuffled" and inj: "inj newId"
    and fresh: "\<And>y. getMatch (db st) (newId y) = None"
  shows "advanceByes (st\<lparr>db := db st @ allMatches_of st newId shuffled\<rparr>)
           (allMatches_of st newId shuffled)
         = Inr (st\<lparr>db := db st @ stored_matches st newId shuffled\<rparr>)"
proof -
  define al where "al = allMatches_of st newId shuffled"
  define k where "k = (2::nat) ^ (rounds_of (length shuffled) - 1)"
  define st1 where "st1 = st\<lparr>db := db st @ al\<rparr>"
  have oids: "oid (al ! x) = newId x" if "x < length al" for x
    using allMatches_oid[OF n] that by (simp add: al_def)
  have late: "\<not> bye (al ! x)" if "k \<le> x" "x < length al" for x
    using allMatches_later[OF n, of x st newId] that not_bye_placeholder_like
    by (auto simp: al_def k_def)
  have early: "player1 (al ! i) = winner (al ! i)
        \<and> nextMatchId (al ! i) = Some (newId (k + i div 2))
        \<and> nextMatchSlot (al ! i) = Some (if even i then SlotPlayer1 else SlotPlayer2)
        \<and> i div 2 < k div 2 \<and> k + i div 2 < length al"
    if i: "i < k" and b: "bye (al ! i)" for i
  proof -
    have i': "i < 2 ^ (rounds_of (length shuffled) - 1)" using i by (simp add: k_def)
    have b': "bye (allMatches_of st newId shuffled ! i)" using b by (simp add: al_def)
    note f = allMatches_bye[OF n i' b']
    have il: "i < length shuffled" using half_size(3)[OF n] i' by simp
    have "rounds_of (length shuffled) = Suc (Suc (rounds_of (length shuffled) - 2))"
      using f(1) by simp
    then obtain R'' where R: "rounds_of (length shuffled) = Suc (Suc R'')" ..
    have kk: "k = 2 * 2 ^ R''" using R by (simp add: k_def)
    have len: "length al = 2 * k - 1"
      using allMatches_length(2)[OF n, of st newId] by (simp add: al_def k_def)
    have d: "i div 2 < k div 2" using i kk by simp
    have "k + i div 2 < length al" using d len kk by simp
    then show ?thesis
      using f(2,3) d il by (simp add: al_def k_def firstRoundMatch_fields)
  qed
  have start: "db st1 = db st @ byes_advanced al k 0"
    using byes_advanced_start[OF n, of st newId] by (simp add: st1_def al_def k_def)
  have "advanceByes st1 (drop 0 al) = Inr (st1\<lparr>db := db st @ byes_advanced al k (length al)\<rparr>)"
    by (rule advanceByes_closed[OF inj fresh oids late _ refl _ start]) (use early in auto)
  then show ?thesis
    by (simp add: st1_def al_def k_def stored_matches_def)
qed

lemma generateBracket_result:
  assumes n: "2 \<le> length shuffled" and inj: "inj newId"
    and fresh: "\<And>y. getMatch (db st) (newId y) = None"
  shows "generateBracket st newId shuffled =
           Inr (st\<lparr>db := db st @ stored_matches st newId shuffled,
                   tournament_doc :=
                     map_option (\<lambda>t. t\<lparr>t_matches := map oid (allMatches_of st newId shuffled),
                                        t_rounds := [1..<rounds_of (length shuffled) + 1],
                                        t_status := ''Active''\<rparr>)
                       (tournament_doc st)\<rparr>,
                allMatches_of st newId shuffled)"
  unfolding generateBracket_alt advanceByes_allMatches[OF assms] by simp

lemma filled_fields [simp]:
  "oid (filled al t j m) = oid m" "round_m (filled al t j m) = round_m m"
  "tournamentId (filled al t j m) = tournamentId m"
  "winner (filled al t j m) = winner m" "claims (filled al t j m) = claims m"
  "result (filled al t j m) = result m"
  "nextMatchId (filled al t j m) = nextMatchId m"
  "nextMatchSlot (filled al t j m) = nextMatchSlot m"
  "player1 (filled al t j m) =
     (if 2 * j < t \<and> bye (al ! (2 * j)) then winner (al ! (2 * j)) else None)"
  "player2 (filled al t j m) =
     (if 2 * j + 1 < t \<and> bye (al ! (2 * j + 1)) then winner (al ! (2 * j + 1)) else None)"
  by (simp_all add: filled_def schedule_if_full_def)

lemma status_filled:
  "status (filled al t j m) =
     (if player1 (filled al t j m) \<noteq> None \<and> player2 (filled al t j m) \<noteq> None
      then scheduled else status m)"
  by (auto simp: filled_def schedule_if_full_def)

lemma length_stored [simp]:
  "length (stored_matches st newId shuffled) = length (allMatches_of st newId shuffled)"
  by (simp add: stored_matches_def)

lemma stored_nth:
  assumes "x < length (allMatches_of st newId shuffled)"
  shows "stored_matches st newId shuffled ! x =
     (if 2 ^ (rounds_of (length shuffled) - 1) \<le> x
         \<and> x < 2 ^ (rounds_of (length shuffled) - 1) + 2 ^ (rounds_of (length shuffled) - 1) div 2
      then filled (allMatches_of st newId shuffled) (length (allMatches_of st newId shuffled))
             (x - 2 ^ (rounds_of (length shuffled) - 1)) (allMatches_of st newId shuffled ! x)
      else allMatches_of st newId shuffled ! x)"
  using assms by (simp add: stored_matches_def byes_advanced_nth)

lemma stored_round:
  "x < length (allMatches_of st newId shuffled) \<Longrightarrow>
   round_m (stored_matches st newId shuffled ! x) = round_m (allMatches_of st newId shuffled ! x)"
  by (simp add: stored_nth)

lemma stored_oid:
  "2 \<le> length shuffled \<Longrightarrow> x < length (allMatches_of st newId shuffled) \<Longrightarrow>
   oid (stored_matches st newId shuffled ! x) = newId x"
  by (simp add: stored_nth allMatches_oid)

lemma map_round_stored:
  "map round_m (stored_matches st newId shuffled) = map round_m (allMatches_of st newId shuffled)"
  by (rule nth_equalityI) (simp_all add: stored_round)

lemma count_round_map:
  "count_round r ms = length (filter (\<lambda>x. x = r) (map round_m ms))"
  by (simp add: count_round_def filter_map comp_def)

lemma count_round_stored:
  "count_round r (stored_matches st newId shuffled) = count_round r (allMatches_of st newId shuffled)"
  by (simp add: count_round_map map_round_stored)

lemma allMatches_round:
  assumes n: "2 \<le> length shuffled" and x: "x < length (allMatches_of st newId shuffled)"
  shows "(round_m (allMatches_of st newId shuffled ! x) = 1)
           = (x < 2 ^ (rounds_of (length shuffled) - 1))"
proof (cases "x < 2 ^ (rounds_of (length shuffled) - 1)")
  case True
  then have "x < length shuffled" using half_size(3)[OF n] by simp
  then show ?thesis
    using True allMatches_first[OF n True, of st newId] firstRound_nth[OF n True, of st newId]
    by (simp add: firstRoundMatch_fields)
next
  case False
  then obtain r' where "2 \<le> r'"
    "placeholder_like (this_tournamentId st) r' (newId x) (allMatches_of st newId shuffled ! x)"
    using allMatches_later[OF n _ x] by auto
  then show ?thesis using False by (simp add: placeholder_like_fields)
qed

lemma count_round_allMatches:
  assumes n: "2 \<le> length shuffled" and r: "1 \<le> r" "r \<le> rounds_of (length shuffled)"
  shows "count_round r (allMatches_of st newId shuffled) = 2 ^ (rounds_of (length shuffled) - r)"
proof -
  define al where "al = allMatches_of st newId shuffled"
  define k where "k = (2::nat) ^ (rounds_of (length shuffled) - 1)"
  have len: "length al = 2 * k - 1"
    using allMatches_length(2)[OF n, of st newId] by (simp add: al_def k_def)
  have kpos: "0 < k" by (simp add: k_def)
  have lf: "length (firstRound st newId shuffled) = k"
    using length_firstRound[OF n] by (simp add: k_def)
  have late: "count_round r (drop k al) =
      (if 2 \<le> r \<and> r \<le> rounds_of (length shuffled) then 2 ^ (rounds_of (length shuffled) - r) else 0)"
    using allMatches_built[OF n, of st newId] lf unfolding rounds_built_def al_def by simp
  have "round_m m = 1" if "m \<in> set (take k al)" for m
  proof -
    from that obtain y where y: "y < length (take k al)" "m = take k al ! y"
      by (metis in_set_conv_nth)
    then have "y < k" "y < length al" "m = al ! y" using len kpos by simp_all
    then show ?thesis using allMatches_round[OF n, of y st newId] by (simp add: al_def k_def)
  qed
  then have early: "count_round r (take k al) = (if r = 1 then k else 0)"
    using count_round_all[of "take k al" 1 r] len kpos by simp
  have "count_round r al = count_round r (take k al) + count_round r (drop k al)"
    using count_round_append[of r "take k al" "drop k al"] by simp
  then show ?thesis
    using early late r by (auto simp: al_def k_def)
qed

section \<open>Rounds and match counts of the built bracket\<close>

lemma rounds_of_5: "rounds_of 5 = 3"
  unfolding rounds_of_ceillog2 by (rule ceillog2_eqI) simp_all

lemma ex_five_length: "length ex_five = 5"
  by (simp add: ex_five_def)

lemma ex_empty_fresh: "getMatch (db ex_empty) y = None"
  by (simp add: ex_empty_def getMatch_def)

lemma in_set_nthE:
  assumes "m \<in> set xs"
  obtains x where "x < length xs" and "m = xs ! x"
  using assms by (metis in_set_conv_nth)

text \<open>
  Claim C5. For at least two participants (and match ids that are fresh and pairwise
  different) \<open>generateBracket\<close> returns, with \<open>rounds = ceil(log2 n)\<close>; the matches it
  creates, both the returned \<open>allMatches\<close> and the documents it adds to the collection,
  number \<open>2^rounds - 1\<close>, and for every round \<open>r\<close> from 1 to \<open>rounds\<close> exactly
  \<open>2^(rounds - r)\<close> of them have round \<open>r\<close>. The rounds written to the Tournament document
  are 1 to \<open>rounds\<close>.
\<close>

theorem bracket_rounds_and_sizes:
  assumes n: "2 \<le> length shuffled" and inj: "inj newId"
    and fresh: "\<forall>y. getMatch (db st) (newId y) = None"
  shows "\<exists>st' allMatches stored.
      generateBracket st newId shuffled = Inr (st', allMatches)
      \<and> db st' = db st @ stored
      \<and> rounds_of (length shuffled) = nat \<lceil>log 2 (real (length shuffled))\<rceil>
      \<and> length allMatches = 2 ^ rounds_of (length shuffled) - 1
      \<and> length stored = 2 ^ rounds_of (length shuffled) - 1
      \<and> (\<forall>r. 1 \<le> r \<and> r \<le> rounds_of (length shuffled) \<longrightarrow>
            length (filter (\<lambda>m. round_m m = r) allMatches) = 2 ^ (rounds_of (length shuffled) - r)
            \<and> length (filter (\<lambda>m. round_m m = r) stored) = 2 ^ (rounds_of (length shuffled) - r))
      \<and> map_option t_rounds (tournament_doc st') =
          map_option (\<lambda>t. [1..<rounds_of (length shuffled) + 1]) (tournament_doc st)"
proof -
  have fresh': "\<And>y. getMatch (db st) (newId y) = None" using fresh by simp
  note res = generateBracket_result[OF n inj fresh']
  have r: "rounds_of (length shuffled) = nat \<lceil>log 2 (real (length shuffled))\<rceil>"
    using n by (auto simp: rounds_of_def)
  have cnt: "length (filter (\<lambda>m. round_m m = r) (allMatches_of st newId shuffled))
               = 2 ^ (rounds_of (length shuffled) - r)
             \<and> length (filter (\<lambda>m. round_m m = r) (stored_matches st newId shuffled))
               = 2 ^ (rounds_of (length shuffled) - r)"
    if "1 \<le> r \<and> r \<le> rounds_of (length shuffled)" for r
    using count_round_allMatches[OF n, of r st newId] count_round_stored[of r st newId shuffled] that
    by (simp add: count_round_def)
  have doc: "map_option t_rounds (map_option (\<lambda>t. t\<lparr>t_matches := map oid (allMatches_of st newId shuffled),
                                        t_rounds := [1..<rounds_of (length shuffled) + 1],
                                        t_status := ''Active''\<rparr>) (tournament_doc st))
             = map_option (\<lambda>t. [1..<rounds_of (length shuffled) + 1]) (tournament_doc st)"
    by (cases "tournament_doc st") simp_all
  show ?thesis
    apply (rule exI[of _ "st\<lparr>db := db st @ stored_matches st newId shuffled,
                   tournament_doc :=
                     map_option (\<lambda>t. t\<lparr>t_matches := map oid (allMatches_of st newId shuffled),
                                        t_rounds := [1..<rounds_of (length shuffled) + 1],
                                        t_status := ''Active''\<rparr>)
                       (tournament_doc st)\<rparr>"])
    apply (rule exI[of _ "allMatches_of st newId shuffled"])
    apply (rule exI[of _ "stored_matches st newId shuffled"])
    using res r cnt doc allMatches_length(1)[OF n, of st newId] by simp
qed

theorem bracket_rounds_and_sizes_witness:
  "2 \<le> length ex_five \<and> inj (\<lambda>k::nat. k) \<and> (\<forall>y. getMatch (db ex_empty) y = None)
   \<and> (\<exists>st' allMatches stored.
        generateBracket ex_empty (\<lambda>k. k) ex_five = Inr (st', allMatches)
        \<and> db st' = stored
        \<and> nat \<lceil>log 2 (real (length ex_five))\<rceil> = 3
        \<and> length allMatches = 7 \<and> length stored = 7
        \<and> length (filter (\<lambda>m. round_m m = 1) allMatches) = 4
        \<and> length (filter (\<lambda>m. round_m m = 2) allMatches) = 2
        \<and> length (filter (\<lambda>m. round_m m = 3) allMatches) = 1)"
proof -
  have h: "2 \<le> length ex_five" "inj (\<lambda>k::nat. k)" "\<forall>y. getMatch (db ex_empty) ((\<lambda>k. k) y) = None"
    by (simp_all add: ex_five_length ex_empty_fresh)
  from bracket_rounds_and_sizes[OF h]
  obtain st' allMatches stored where
    g: "generateBracket ex_empty (\<lambda>k. k) ex_five = Inr (st', allMatches)"
    and d: "db st' = db ex_empty @ stored"
    and r: "rounds_of (length ex_five) = nat \<lceil>log 2 (real (length ex_five))\<rceil>"
    and l: "length allMatches = 2 ^ rounds_of (length ex_five) - 1"
        "length stored = 2 ^ rounds_of (length ex_five) - 1"
    and c: "\<forall>r. 1 \<le> r \<and> r \<le> rounds_of (length ex_five) \<longrightarrow>
            length (filter (\<lambda>m. round_m m = r) allMatches) = 2 ^ (rounds_of (length ex_five) - r)
            \<and> length (filter (\<lambda>m. round_m m = r) stored) = 2 ^ (rounds_of (length ex_five) - r)"
    by blast
  have R: "rounds_of (length ex_five) = 3" by (simp add: ex_five_length rounds_of_5)
  have "db st' = stored" using d by (simp add: ex_empty_def)
  moreover have "nat \<lceil>log 2 (real (length ex_five))\<rceil> = 3" using r R by simp
  moreover have "length allMatches = 7" "length stored = 7" using l R by simp_all
  moreover have "length (filter (\<lambda>m. round_m m = 1) allMatches) = 4"
    using c[rule_format, of 1] R by simp
  moreover have "length (filter (\<lambda>m. round_m m = 2) allMatches) = 2"
    using c[rule_format, of 2] R by simp
  moreover have "length (filter (\<lambda>m. round_m m = 3) allMatches) = 1"
    using c[rule_format, of 3] R by simp
  ultimately show ?thesis using h g by (auto simp: ex_empty_fresh)
qed

section \<open>The first slot of round-1 matches\<close>

lemma allMatches_round1_player1:
  assumes n: "2 \<le> length shuffled" and x: "x < length (allMatches_of st newId shuffled)"
    and r: "round_m (allMatches_of st newId shuffled ! x) = 1"
  shows "x < 2 ^ (rounds_of (length shuffled) - 1)"
    and "player1 (allMatches_of st newId shuffled ! x) = Some (p_id (shuffled ! x))"
    and "stored_matches st newId shuffled ! x = allMatches_of st newId shuffled ! x"
proof -
  show k: "x < 2 ^ (rounds_of (length shuffled) - 1)"
    using allMatches_round[OF n x] r by simp
  then have xl: "x < length shuffled" using half_size(3)[OF n] by simp
  show "player1 (allMatches_of st newId shuffled ! x) = Some (p_id (shuffled ! x))"
    using allMatches_first[OF n k, of st newId] firstRound_nth[OF n k, of st newId] xl
    by (simp add: firstRoundMatch_fields)
  show "stored_matches st newId shuffled ! x = allMatches_of st newId shuffled ! x"
    using k x by (simp add: stored_nth)
qed

text \<open>
  Claim C10. For at least two participants, every round-1 match that \<open>generateBracket\<close>
  creates, in the returned \<open>allMatches\<close> and in the collection after the build, has a
  non-empty \<open>player1\<close>, so a bye can only be an empty \<open>player2\<close>. The reason is the one
  the claim gives: there are \<open>size / 2\<close> round-1 matches, and \<open>size / 2\<close> does not exceed
  the number of participants.
\<close>

theorem round1_player1_present:
  assumes n: "2 \<le> length shuffled" and inj: "inj newId"
    and fresh: "\<forall>y. getMatch (db st) (newId y) = None"
  shows "\<exists>st' allMatches stored.
      generateBracket st newId shuffled = Inr (st', allMatches)
      \<and> db st' = db st @ stored
      \<and> (\<forall>m \<in> set allMatches. round_m m = 1 \<longrightarrow> player1 m \<noteq> None)
      \<and> (\<forall>m \<in> set stored. round_m m = 1 \<longrightarrow> player1 m \<noteq> None)
      \<and> length (filter (\<lambda>m. round_m m = 1) allMatches) = size_of (length shuffled) div 2
      \<and> size_of (length shuffled) div 2 \<le> length shuffled"
proof -
  have fresh': "\<And>y. getMatch (db st) (newId y) = None" using fresh by simp
  note res = generateBracket_result[OF n inj fresh']
  have a: "player1 m \<noteq> None"
    if m: "m \<in> set (allMatches_of st newId shuffled)" and r: "round_m m = 1" for m
  proof -
    from m obtain x where x: "x < length (allMatches_of st newId shuffled)"
      "m = allMatches_of st newId shuffled ! x" by (rule in_set_nthE)
    then show ?thesis using allMatches_round1_player1(2)[OF n x(1)] r by simp
  qed
  have b: "player1 m \<noteq> None"
    if m: "m \<in> set (stored_matches st newId shuffled)" and r: "round_m m = 1" for m
  proof -
    from m obtain x where x: "x < length (stored_matches st newId shuffled)"
      "m = stored_matches st newId shuffled ! x" by (rule in_set_nthE)
    then have xl: "x < length (allMatches_of st newId shuffled)" by simp
    have r': "round_m (allMatches_of st newId shuffled ! x) = 1"
      using r x(2) stored_round[OF xl] by simp
    show ?thesis
      using allMatches_round1_player1(2,3)[OF n xl r'] x(2) by simp
  qed
  have c: "length (filter (\<lambda>m. round_m m = 1) (allMatches_of st newId shuffled))
            = size_of (length shuffled) div 2"
    using count_round_allMatches[OF n, of 1 st newId] rounds_of_bounds(1)[OF n] half_size(2)[OF n]
    by (simp add: count_round_def)
  have d: "size_of (length shuffled) div 2 \<le> length shuffled"
    using half_size(2,3)[OF n] by simp
  show ?thesis
    apply (rule exI[of _ "st\<lparr>db := db st @ stored_matches st newId shuffled,
                   tournament_doc :=
                     map_option (\<lambda>t. t\<lparr>t_matches := map oid (allMatches_of st newId shuffled),
                                        t_rounds := [1..<rounds_of (length shuffled) + 1],
                                        t_status := ''Active''\<rparr>)
                       (tournament_doc st)\<rparr>"])
    apply (rule exI[of _ "allMatches_of st newId shuffled"])
    apply (rule exI[of _ "stored_matches st newId shuffled"])
    using res a b c d by simp
qed

theorem round1_player1_present_witness:
  "2 \<le> length ex_five \<and> inj (\<lambda>k::nat. k) \<and> (\<forall>y. getMatch (db ex_empty) y = None)
   \<and> (\<exists>st' allMatches.
        generateBracket ex_empty (\<lambda>k. k) ex_five = Inr (st', allMatches)
        \<and> (\<forall>m \<in> set allMatches. round_m m = 1 \<longrightarrow> player1 m \<noteq> None)
        \<and> (\<forall>m \<in> set (db st'). round_m m = 1 \<longrightarrow> player1 m \<noteq> None)
        \<and> length (filter (\<lambda>m. round_m m = 1) allMatches) = 4
        \<and> (4::nat) \<le> length ex_five)"
proof -
  have h: "2 \<le> length ex_five" "inj (\<lambda>k::nat. k)" "\<forall>y. getMatch (db ex_empty) ((\<lambda>k. k) y) = None"
    by (simp_all add: ex_five_length ex_empty_fresh)
  from round1_player1_present[OF h]
  obtain st' allMatches stored where
    g: "generateBracket ex_empty (\<lambda>k. k) ex_five = Inr (st', allMatches)"
    and d: "db st' = db ex_empty @ stored"
    and a: "\<forall>m \<in> set allMatches. round_m m = 1 \<longrightarrow> player1 m \<noteq> None"
    and b: "\<forall>m \<in> set stored. round_m m = 1 \<longrightarrow> player1 m \<noteq> None"
    and c: "length (filter (\<lambda>m. round_m m = 1) allMatches) = size_of (length ex_five) div 2"
    and e: "size_of (length ex_five) div 2 \<le> length ex_five"
    by blast
  have s: "size_of (length ex_five) div 2 = 4"
    by (simp add: size_of_def ex_five_length rounds_of_5)
  have "db st' = stored" using d by (simp add: ex_empty_def)
  then show ?thesis using h g a b c e s by (auto simp: ex_empty_fresh)
qed

section \<open>Byes and their successors after the build\<close>

lemma successor_index:
  assumes n: "2 \<le> length shuffled" and R: "2 \<le> rounds_of (length shuffled)"
    and i: "i < 2 ^ (rounds_of (length shuffled) - 1)"
  shows "i div 2 < 2 ^ (rounds_of (length shuffled) - 1) div 2"
    and "2 ^ (rounds_of (length shuffled) - 1) + i div 2 < length (allMatches_of st newId shuffled)"
    and "i < length (allMatches_of st newId shuffled)"
proof -
  have "rounds_of (length shuffled) = Suc (Suc (rounds_of (length shuffled) - 2))"
    using R by simp
  then obtain R'' where R': "rounds_of (length shuffled) = Suc (Suc R'')" ..
  define q where "q = (2::nat) ^ R''"
  have q: "0 < q" by (simp add: q_def)
  have k: "2 ^ (rounds_of (length shuffled) - 1) = 2 * q" using R' by (simp add: q_def)
  have len: "length (allMatches_of st newId shuffled) = 2 * (2 * q) - 1"
    using allMatches_length(2)[OF n, of st newId] k by simp
  have i': "i < 2 * q" using i k by simp
  then have h: "i div 2 < q" by simp
  show "i div 2 < 2 ^ (rounds_of (length shuffled) - 1) div 2" unfolding k using i' by simp
  show "2 ^ (rounds_of (length shuffled) - 1) + i div 2 < length (allMatches_of st newId shuffled)"
    unfolding k len using h q by linarith
  show "i < length (allMatches_of st newId shuffled)" unfolding len using i' q by simp
qed

text \<open>Lookups in the collection after the build.\<close>

lemma getMatch_stored:
  assumes n: "2 \<le> length shuffled" and inj: "inj newId"
    and fresh: "\<And>y. getMatch (db st) (newId y) = None"
    and x: "x < length (allMatches_of st newId shuffled)"
  shows "getMatch (db st @ stored_matches st newId shuffled) (newId x)
           = Some (stored_matches st newId shuffled ! x)"
  by (rule getMatch_new[OF inj fresh]) (use x n in \<open>simp_all add: stored_oid\<close>)

text \<open>A round-1 match with an empty second slot, and where its winner has gone.\<close>

lemma round1_bye_facts:
  assumes n: "2 \<le> length shuffled"
    and x: "x < length (allMatches_of st newId shuffled)"
    and r: "round_m (allMatches_of st newId shuffled ! x) = 1"
    and p2: "player2 (allMatches_of st newId shuffled ! x) = None"
  defines "al \<equiv> allMatches_of st newId shuffled"
    and "k \<equiv> 2 ^ (rounds_of (length shuffled) - 1)"
  shows "x < k" and "2 \<le> rounds_of (length shuffled)" and "bye (al ! x)"
    and "status (al ! x) = completed"
    and "winner (al ! x) = Some (p_id (shuffled ! x))"
    and "player1 (al ! x) = Some (p_id (shuffled ! x))"
    and "nextMatchId (al ! x) = Some (newId (k + x div 2))"
    and "nextMatchSlot (al ! x) = Some (if even x then SlotPlayer1 else SlotPlayer2)"
    and "stored_matches st newId shuffled ! x = al ! x"
proof -
  show k: "x < k" using allMatches_round[OF n x] r by (simp add: k_def)
  then have k': "x < 2 ^ (rounds_of (length shuffled) - 1)" by (simp add: k_def)
  have xl: "x < length shuffled" using half_size(3)[OF n] k' by simp
  have nth: "al ! x =
      (if 2 \<le> rounds_of (length shuffled)
       then linked newId k x (firstRoundMatch (this_tournamentId st) shuffled
              (size_of (length shuffled)) (newId x) x)
       else firstRoundMatch (this_tournamentId st) shuffled (size_of (length shuffled)) (newId x) x)"
    using allMatches_first[OF n k', of st newId] firstRound_nth[OF n k', of st newId]
    by (simp add: al_def k_def)
  have far: "\<not> size_of (length shuffled) - 1 - x < length shuffled"
    using p2 nth xl by (auto simp: al_def firstRoundMatch_fields split: if_splits)
  then show b: "bye (al ! x)"
    using nth xl by (simp add: bye_def firstRoundMatch_fields)
  then have b': "bye (allMatches_of st newId shuffled ! x)" by (simp add: al_def)
  show R2: "2 \<le> rounds_of (length shuffled)" by (rule allMatches_bye(1)[OF n k' b'])
  show "status (al ! x) = completed" using b by (simp add: bye_def)
  show "winner (al ! x) = Some (p_id (shuffled ! x))"
    using nth xl far by (simp add: firstRoundMatch_fields)
  show "player1 (al ! x) = Some (p_id (shuffled ! x))"
    using nth xl by (simp add: firstRoundMatch_fields)
  show "nextMatchId (al ! x) = Some (newId (k + x div 2))"
    using nth R2 by simp
  show "nextMatchSlot (al ! x) = Some (if even x then SlotPlayer1 else SlotPlayer2)"
    using nth R2 by simp
  show "stored_matches st newId shuffled ! x = al ! x"
    using k' x by (simp add: stored_nth al_def)
qed

lemma stored_successor:
  fixes st :: bracket and newId :: "nat \<Rightarrow> oid" and shuffled :: "participant list"
  assumes n: "2 \<le> length shuffled" and R: "2 \<le> rounds_of (length shuffled)"
    and j: "j < 2 ^ (rounds_of (length shuffled) - 1) div 2"
  defines "al \<equiv> allMatches_of st newId shuffled"
    and "k \<equiv> 2 ^ (rounds_of (length shuffled) - 1)"
  shows "k + j < length al"
    and "round_m (stored_matches st newId shuffled ! (k + j)) = 2"
    and "player1 (stored_matches st newId shuffled ! (k + j))
           = (if bye (al ! (2 * j)) then winner (al ! (2 * j)) else None)"
    and "player2 (stored_matches st newId shuffled ! (k + j))
           = (if bye (al ! (2 * j + 1)) then winner (al ! (2 * j + 1)) else None)"
    and "status (stored_matches st newId shuffled ! (k + j))
           = (if bye (al ! (2 * j)) \<and> bye (al ! (2 * j + 1)) then scheduled else pending)"
proof -
  have "rounds_of (length shuffled) = Suc (Suc (rounds_of (length shuffled) - 2))"
    using R by simp
  then obtain R'' where R': "rounds_of (length shuffled) = Suc (Suc R'')" ..
  define q where "q = (2::nat) ^ R''"
  have q: "0 < q" by (simp add: q_def)
  have kk: "k = 2 * q" using R' by (simp add: k_def q_def)
  have j': "j < q" using j kk by (simp add: k_def)
  have len: "length al = 2 * k - 1"
    using allMatches_length(2)[OF n, of st newId] by (simp add: al_def k_def)
  show kj: "k + j < length al" unfolding len kk using j' by simp
  have two: "2 * j < length al" "2 * j + 1 < length al" unfolding len kk using j' by simp_all
  have ph: "placeholder_like (this_tournamentId st) 2 (newId (k + j)) (al ! (k + j))"
    using allMatches_second[OF n R j, of st newId] by (simp add: al_def k_def)
  have cond: "k \<le> k + j \<and> k + j < k + k div 2" unfolding kk using j' by simp
  have "stored_matches st newId shuffled ! (k + j) =
          (if k \<le> k + j \<and> k + j < k + k div 2
           then filled al (length al) (k + j - k) (al ! (k + j)) else al ! (k + j))"
    using stored_nth[of "k + j" st newId shuffled] kj unfolding al_def k_def by blast
  then have st: "stored_matches st newId shuffled ! (k + j) = filled al (length al) j (al ! (k + j))"
    using cond by simp
  show "round_m (stored_matches st newId shuffled ! (k + j)) = 2"
    unfolding st using ph by (simp add: placeholder_like_fields)
  show p1: "player1 (stored_matches st newId shuffled ! (k + j))
           = (if bye (al ! (2 * j)) then winner (al ! (2 * j)) else None)"
    unfolding st using two by simp
  show p2: "player2 (stored_matches st newId shuffled ! (k + j))
           = (if bye (al ! (2 * j + 1)) then winner (al ! (2 * j + 1)) else None)"
    unfolding st using two by simp
  show "status (stored_matches st newId shuffled ! (k + j))
           = (if bye (al ! (2 * j)) \<and> bye (al ! (2 * j + 1)) then scheduled else pending)"
    using p1 p2 status_filled[of al "length al" j "al ! (k + j)"] ph
    unfolding st by (auto simp: placeholder_like_fields bye_def)
qed

lemma generateBracket_db:
  assumes n: "2 \<le> length shuffled" and inj: "inj newId"
    and fresh: "\<And>y. getMatch (db st) (newId y) = None"
  shows "\<exists>st'. generateBracket st newId shuffled = Inr (st', allMatches_of st newId shuffled)
           \<and> db st' = db st @ stored_matches st newId shuffled"
  unfolding generateBracket_result[OF assms] by simp

subsection \<open>Matches out of the reach of advancement\<close>

lemma getMatch_in_set: "getMatch ms i = Some d \<Longrightarrow> d \<in> set ms"
  by (auto simp: getMatch_def find_Some_iff)

lemma in_set_updateOne:
  "d \<in> set (updateOne i f ms) \<Longrightarrow> d \<in> set ms \<or> (\<exists>d0\<in>set ms. d = f d0)"
  by (induction ms) (auto split: if_splits)

lemma nextMatchId_placed:
  "nextMatchId (schedule_if_full (place_winner sl w nm)) = nextMatchId nm"
  by (simp add: schedule_if_full_def place_winner_def split: option.splits slot.splits)

text \<open>
  A stored match that no stored match names as its successor is out of the reach of
  \<open>advanceWinner\<close>, and \<open>submitResult\<close> gives a match one of three statuses.
\<close>

lemma advanceWinner_unlinked:
  assumes adv: "advanceWinner S i w = Inr S1"
    and I2: "\<forall>d\<in>set (db S). nextMatchId d \<noteq> Some b"
  shows "getMatch (db S1) b = getMatch (db S) b"
    and "\<forall>d\<in>set (db S1). nextMatchId d \<noteq> Some b"
proof -
  from advanceWinner_cases[OF adv] consider "db S1 = db S"
    | m nid nm p1 where "getMatch (db S) i = Some m" "nextMatchId m = Some nid"
        "getMatch (db S) nid = Some nm"
        "db S1 = updateOne nid (\<lambda>d. schedule_if_full (place_winner (nextMatchSlot m)
                        (if p1 = w then Some p1 else player2 m) nm)) (db S)"
    by auto
  then have "getMatch (db S1) b = getMatch (db S) b
             \<and> (\<forall>d\<in>set (db S1). nextMatchId d \<noteq> Some b)"
  proof cases
    case 1
    then show ?thesis using I2 by simp
  next
    case 2
    have "m \<in> set (db S)" using 2(1) by (rule getMatch_in_set)
    then have ne: "b \<noteq> nid" using I2 2(2) by auto
    have o: "oid nm = nid" using 2(3) by (rule getMatch_oid)
    have nms: "nm \<in> set (db S)" using 2(3) by (rule getMatch_in_set)
    have g: "getMatch (db S1) b = getMatch (db S) b"
      unfolding 2(4) using ne o by (simp add: getMatch_updateOne)
    have "nextMatchId d \<noteq> Some b" if "d \<in> set (db S1)" for d
      using in_set_updateOne[OF that[unfolded 2(4)]] I2 nms
      by (auto simp: nextMatchId_placed)
    then show ?thesis using g by blast
  qed
  then show "getMatch (db S1) b = getMatch (db S) b"
    and "\<forall>d\<in>set (db S1). nextMatchId d \<noteq> Some b" by blast+
qed

lemma submitResult_unlinked:
  assumes r: "submitResult S i u w sc prf now = Inr (S', res)"
    and b: "getMatch (db S) b = Some d" and ns: "status d \<noteq> scheduled"
    and I2: "\<forall>d\<in>set (db S). nextMatchId d \<noteq> Some b"
  shows "\<exists>d'. getMatch (db S') b = Some d' \<and> status d' \<noteq> scheduled
               \<and> d' = d\<lparr>claims := claims d', status := status d', result := result d'\<rparr>"
    and "\<forall>d\<in>set (db S'). nextMatchId d \<noteq> Some b"
proof -
  have "(\<exists>d'. getMatch (db S') b = Some d' \<and> status d' \<noteq> scheduled
               \<and> d' = d\<lparr>claims := claims d', status := status d', result := result d'\<rparr>)
        \<and> (\<forall>d\<in>set (db S'). nextMatchId d \<noteq> Some b)"
  proof (cases "getMatch (db S) i")
    case None
    then have "S' = S" using r by (simp add: submitResult_unknown)
    then show ?thesis using b ns I2 by simp
  next
    case (Some m0)
    define cl where "cl = record_claim m0 u
                 \<lparr>winnerId = w, scores = sc, claim_proof = prf, timestamp = now\<rparr>"
    obtain st1 m' where eq: "submitResult S i u w sc prf now = Inr (save_match st1 m', Some m')"
      and o: "oid m' = i"
      and out: "(case (claims_get cl (player1 m0), claims_get cl (player2 m0)) of
                 (Some c1, Some c2) \<Rightarrow>
                   if winnerId c1 = winnerId c2
                   then status m' = completed
                        \<and> result m' = Some \<lparr>res_scores = scores c1,
                                             res_timestamp = now\<rparr>
                        \<and> advanceWinner S i (winnerId c1) = Inr st1
                   else status m' = dispute \<and> result m' = result m0 \<and> st1 = S
               | _ \<Rightarrow> status m' = awaiting_confirmation \<and> result m' = result m0 \<and> st1 = S)"
      using submitResult_found[OF Some cl_def] by blast
    have S': "S' = save_match st1 m'" using r eq by simp
    have stm: "status m' \<noteq> scheduled"
      using out by (auto split: option.splits if_splits)
    have "st1 = S \<or> (\<exists>w'. advanceWinner S i w' = Inr st1)"
      using out by (auto split: option.splits if_splits)
    then have g1: "getMatch (db st1) b = Some d"
      and i1: "\<forall>d\<in>set (db st1). nextMatchId d \<noteq> Some b"
      using advanceWinner_unlinked[OF _ I2] b I2 by auto
    have g: "\<exists>d'. getMatch (db S') b = Some d' \<and> status d' \<noteq> scheduled
               \<and> d' = d\<lparr>claims := claims d', status := status d', result := result d'\<rparr>"
    proof (cases "b = oid m'")
      case True
      then have "getMatch (db S') b
                   = Some (d\<lparr>claims := claims m', status := status m', result := result m'\<rparr>)"
        unfolding S' using g1 by (simp add: getMatch_save_match)
      then show ?thesis using stm by simp
    next
      case False
      then have "getMatch (db S') b = Some d"
        unfolding S' using g1 by (simp add: getMatch_save_match)
      then show ?thesis using ns by simp
    qed
    have "nextMatchId d \<noteq> Some b" if "d \<in> set (db S')" for d
      using in_set_updateOne[OF that[unfolded S' save_match_def, simplified]] i1 by auto
    then show ?thesis using g by blast
  qed
  then show "\<exists>d'. getMatch (db S') b = Some d' \<and> status d' \<noteq> scheduled
               \<and> d' = d\<lparr>claims := claims d', status := status d', result := result d'\<rparr>"
    and "\<forall>d\<in>set (db S'). nextMatchId d \<noteq> Some b" by blast+
qed

lemma submitResults_unlinked:
  assumes "submitResults S subs = Inr S'"
    and "getMatch (db S) b = Some d" and "status d \<noteq> scheduled"
    and "\<forall>d\<in>set (db S). nextMatchId d \<noteq> Some b"
  shows "\<exists>d'. getMatch (db S') b = Some d' \<and> status d' \<noteq> scheduled
               \<and> d' = d\<lparr>claims := claims d', status := status d', result := result d'\<rparr>"
  using assms
proof (induction subs arbitrary: S d)
  case Nil
  then show ?case by simp
next
  case (Cons s ss)
  from Cons.prems(1) obtain S1 res where
    step: "submitResult S (s_matchId s) (s_userId s) (s_winnerId s) (s_scores s) (s_proof s) (s_now s)
             = Inr (S1, res)"
    and rest: "submitResults S1 ss = Inr S'"
    by (auto split: sum.splits)
  from submitResult_unlinked[OF step Cons.prems(2,3,4)]
  obtain d1 where d1: "getMatch (db S1) b = Some d1" "status d1 \<noteq> scheduled"
      "d1 = d\<lparr>claims := claims d1, status := status d1, result := result d1\<rparr>"
    and i1: "\<forall>d\<in>set (db S1). nextMatchId d \<noteq> Some b"
    by blast
  from Cons.IH[OF rest d1(1,2) i1]
  obtain d' where d': "getMatch (db S') b = Some d'" "status d' \<noteq> scheduled"
      "d' = d1\<lparr>claims := claims d', status := status d', result := result d'\<rparr>"
    by blast
  have "d' = d\<lparr>claims := claims d', status := status d', result := result d'\<rparr>"
    by (subst d'(3), subst d1(3)) simp
  then show ?case using d'(1,2) by blast
qed

subsection \<open>The successors named by the builder\<close>

text \<open>The successors named in \<open>allMatches\<close> are ids drawn after the first round.\<close>

lemma linkRound_next_ids:
  assumes "linkRound t newId r cur i a nx = (a', nx')" and "s0 \<le> length a"
    and "\<forall>m\<in>set a. nextMatchId m = None \<or> (\<exists>z\<ge>s0. nextMatchId m = Some (newId z))"
  shows "s0 \<le> length a'
         \<and> (\<forall>m\<in>set a'. nextMatchId m = None \<or> (\<exists>z\<ge>s0. nextMatchId m = Some (newId z)))"
  using assms
proof (induction t newId r cur i a nx rule: linkRound.induct)
  case (1 t newId r cur i a nx)
  show ?case
  proof (cases "i < length cur")
    case False
    then have "linkRound t newId r cur i a nx = (a, nx)"
      by (subst linkRound.simps) simp
    then show ?thesis using "1.prems" by simp
  next
    case True
    define L where "L = length a"
    define m where "m = placeholderMatch t r (newId L)"
    define a1 where "a1 = a[cur ! i := link (oid m) SlotPlayer1 (a ! (cur ! i))]"
    define a2 where "a2 = (if i + 1 < length cur
                  then a1[cur ! (i + 1) := link (oid m) SlotPlayer2 (a1 ! (cur ! (i + 1)))]
                  else a1)"
    have step: "linkRound t newId r cur i a nx =
                linkRound t newId r cur (i + 2) (a2 @ [m]) (nx @ [L])"
      using True by (subst linkRound.simps) (simp add: Let_def a2_def a1_def m_def L_def)
    have om: "oid m = newId L" by (simp add: m_def placeholderMatch_def)
    have q: "nextMatchId d = None \<or> (\<exists>z\<ge>s0. nextMatchId d = Some (newId z))"
      if "d \<in> set (xs[p := link (oid m) sl (xs ! p)])"
        and "\<forall>m\<in>set xs. nextMatchId m = None \<or> (\<exists>z\<ge>s0. nextMatchId m = Some (newId z))"
      for d xs p sl
    proof -
      from that(1) have "d \<in> set xs \<or> d = link (oid m) sl (xs ! p)"
        using set_update_subset_insert[of xs p "link (oid m) sl (xs ! p)"] by auto
      then show ?thesis
      proof
        assume "d \<in> set xs" then show ?thesis using that(2) by blast
      next
        assume "d = link (oid m) sl (xs ! p)"
        then have "nextMatchId d = Some (newId L)" by (simp add: link_def om)
        then show ?thesis using "1.prems"(2) by (auto simp: L_def)
      qed
    qed
    have q1: "\<forall>d\<in>set a1. nextMatchId d = None \<or> (\<exists>z\<ge>s0. nextMatchId d = Some (newId z))"
      unfolding a1_def using q "1.prems"(3) by blast
    have q2: "\<forall>d\<in>set a2. nextMatchId d = None \<or> (\<exists>z\<ge>s0. nextMatchId d = Some (newId z))"
      unfolding a2_def using q q1 by (auto split: if_splits)
    have qm: "nextMatchId m = None" by (simp add: m_def placeholderMatch_def)
    have len: "s0 \<le> length (a2 @ [m])"
      using "1.prems"(2) by (simp add: a2_def a1_def)
    have all: "\<forall>d\<in>set (a2 @ [m]).
                 nextMatchId d = None \<or> (\<exists>z\<ge>s0. nextMatchId d = Some (newId z))"
      using q2 qm by auto
    have res: "linkRound t newId r cur (i + 2) (a2 @ [m]) (nx @ [L]) = (a', nx')"
      using "1.prems"(1) step by simp
    show ?thesis
      by (rule "1.IH"[OF True m_def[unfolded L_def] a1_def a2_def res[unfolded L_def] len all])
  qed
qed


lemma subsequentRounds_next_ids:
  assumes "s0 \<le> length a"
    and "\<forall>m\<in>set a. nextMatchId m = None \<or> (\<exists>z\<ge>s0. nextMatchId m = Some (newId z))"
  shows "\<forall>m\<in>set (subsequentRounds t newId R r cur a).
           nextMatchId m = None \<or> (\<exists>z\<ge>s0. nextMatchId m = Some (newId z))"
  using assms
proof (induction t newId R r cur a rule: subsequentRounds.induct)
  case (1 t newId rounds r cur allMatches)
  show ?case
  proof (cases "r \<le> rounds")
    case False
    then have "subsequentRounds t newId rounds r cur allMatches = allMatches"
      by (subst subsequentRounds.simps) simp
    then show ?thesis using "1.prems" by simp
  next
    case True
    obtain a' nx where lr: "linkRound t newId r cur 0 allMatches [] = (a', nx)"
      by (cases "linkRound t newId r cur 0 allMatches []") auto
    have unf: "subsequentRounds t newId rounds r cur allMatches
                 = subsequentRounds t newId rounds (r + 1) nx a'"
      using True lr by (subst subsequentRounds.simps) simp
    from linkRound_next_ids[OF lr "1.prems"]
    have l: "s0 \<le> length a'"
      and q: "\<forall>m\<in>set a'. nextMatchId m = None \<or> (\<exists>z\<ge>s0. nextMatchId m = Some (newId z))"
      by blast+
    show ?thesis
      unfolding unf by (rule "1.IH"[OF True lr[symmetric] l q])
  qed
qed

lemma allMatches_next_ids:
  assumes n: "2 \<le> length shuffled" and m: "m \<in> set (allMatches_of st newId shuffled)"
  shows "nextMatchId m = None
         \<or> (\<exists>z\<ge>2 ^ (rounds_of (length shuffled) - 1). nextMatchId m = Some (newId z))"
proof -
  have f: "\<forall>m\<in>set (firstRound st newId shuffled). nextMatchId m = None
             \<or> (\<exists>z\<ge>2 ^ (rounds_of (length shuffled) - 1). nextMatchId m = Some (newId z))"
    by (auto simp: firstRound_def firstRoundMatch_def Let_def)
  have l: "2 ^ (rounds_of (length shuffled) - 1) \<le> length (firstRound st newId shuffled)"
    using length_firstRound[OF n, of st newId] by simp
  show ?thesis
    using subsequentRounds_next_ids[OF l f] m unfolding allMatches_of_def by blast
qed

lemma nextMatchId_stored:
  "x < length (allMatches_of st newId shuffled) \<Longrightarrow>
   nextMatchId (stored_matches st newId shuffled ! x)
     = nextMatchId (allMatches_of st newId shuffled ! x)"
  by (simp add: stored_nth)

lemma built_unlinked:
  assumes n: "2 \<le> length shuffled" and inj: "inj newId"
    and old: "\<forall>d\<in>set (db st). nextMatchId d \<noteq> Some (newId x)"
    and x: "x < 2 ^ (rounds_of (length shuffled) - 1)"
  shows "\<forall>d\<in>set (db st @ stored_matches st newId shuffled). nextMatchId d \<noteq> Some (newId x)"
proof -
  have "nextMatchId d \<noteq> Some (newId x)" if d: "d \<in> set (stored_matches st newId shuffled)" for d
  proof -
    from d obtain y where y: "y < length (stored_matches st newId shuffled)"
      "d = stored_matches st newId shuffled ! y" by (rule in_set_nthE)
    then have yl: "y < length (allMatches_of st newId shuffled)" by simp
    have e: "nextMatchId d = nextMatchId (allMatches_of st newId shuffled ! y)"
      using y(2) nextMatchId_stored[OF yl] by simp
    have "allMatches_of st newId shuffled ! y \<in> set (allMatches_of st newId shuffled)"
      using yl by simp
    from allMatches_next_ids[OF n this]
    show ?thesis
    proof
      assume "nextMatchId (allMatches_of st newId shuffled ! y) = None"
      then show ?thesis using e by simp
    next
      assume "\<exists>z\<ge>2 ^ (rounds_of (length shuffled) - 1).
                nextMatchId (allMatches_of st newId shuffled ! y) = Some (newId z)"
      then obtain z where z: "2 ^ (rounds_of (length shuffled) - 1) \<le> z"
        "nextMatchId (allMatches_of st newId shuffled ! y) = Some (newId z)" by blast
      have "z \<noteq> x" using z(1) x by simp
      then have "newId z \<noteq> newId x" using inj by (simp add: inj_eq)
      then show ?thesis using e z(2) by simp
    qed
  qed
  then show ?thesis using old by auto
qed

subsection \<open>The round-1 matches by position\<close>

lemma round1_at:
  assumes n: "2 \<le> length shuffled" and x: "x < size_of (length shuffled) div 2"
  shows "x < 2 ^ (rounds_of (length shuffled) - 1)"
    and "x < length (allMatches_of st newId shuffled)"
    and "x < length shuffled"
    and "oid (allMatches_of st newId shuffled ! x) = newId x"
    and "round_m (allMatches_of st newId shuffled ! x) = 1"
    and "player1 (allMatches_of st newId shuffled ! x) = Some (p_id (shuffled ! x))"
    and "player2 (allMatches_of st newId shuffled ! x)
           = (if size_of (length shuffled) - 1 - x < length shuffled
              then Some (p_id (shuffled ! (size_of (length shuffled) - 1 - x))) else None)"
    and "status (allMatches_of st newId shuffled ! x)
           = (if size_of (length shuffled) - 1 - x < length shuffled then scheduled else completed)"
    and "winner (allMatches_of st newId shuffled ! x)
           = (if size_of (length shuffled) - 1 - x < length shuffled
              then None else Some (p_id (shuffled ! x)))"
proof -
  show k: "x < 2 ^ (rounds_of (length shuffled) - 1)"
    using x half_size(2)[OF n] by simp
  have "(1::nat) \<le> 2 ^ (rounds_of (length shuffled) - 1)" by simp
  then show xl: "x < length (allMatches_of st newId shuffled)"
    using k allMatches_length(2)[OF n, of st newId] by linarith
  show xs: "x < length shuffled" using half_size(3)[OF n] k by simp
  note nth = allMatches_first[OF n k, of st newId] firstRound_nth[OF n k, of st newId]
  show "oid (allMatches_of st newId shuffled ! x) = newId x"
    by (rule allMatches_oid[OF n xl])
  show "round_m (allMatches_of st newId shuffled ! x) = 1"
    using allMatches_round[OF n xl] k by simp
  show "player1 (allMatches_of st newId shuffled ! x) = Some (p_id (shuffled ! x))"
    using nth xs by (simp add: firstRoundMatch_fields)
  show "player2 (allMatches_of st newId shuffled ! x)
           = (if size_of (length shuffled) - 1 - x < length shuffled
              then Some (p_id (shuffled ! (size_of (length shuffled) - 1 - x))) else None)"
    using nth xs by (simp add: firstRoundMatch_fields)
  show "status (allMatches_of st newId shuffled ! x)
           = (if size_of (length shuffled) - 1 - x < length shuffled then scheduled else completed)"
    using nth xs by (simp add: firstRoundMatch_fields)
  show "winner (allMatches_of st newId shuffled ! x)
           = (if size_of (length shuffled) - 1 - x < length shuffled
              then None else Some (p_id (shuffled ! x)))"
    using nth xs by (simp add: firstRoundMatch_fields)
qed

lemma round1_bye_record:
  assumes n: "2 \<le> length shuffled" and x: "x < size_of (length shuffled) div 2"
    and far: "length shuffled \<le> size_of (length shuffled) - 1 - x"
  shows "allMatches_of st newId shuffled ! x =
           \<lparr>oid = newId x, tournamentId = this_tournamentId st, round_m = 1,
            player1 = Some (p_id (shuffled ! x)), player2 = None,
            winner = Some (p_id (shuffled ! x)), status = completed,
            nextMatchId = Some (newId (size_of (length shuffled) div 2 + x div 2)),
            nextMatchSlot = Some (if even x then SlotPlayer1 else SlotPlayer2),
            result = None, claims = None\<rparr>"
proof -
  note r = round1_at(1,2,3)[OF n x]
  have far': "\<not> size_of (length shuffled) - 1 - x < length shuffled" using far by simp
  have b: "bye (allMatches_of st newId shuffled ! x)"
    using round1_at(8,9)[OF n x, of st newId] far' by (simp add: bye_def)
  have k: "size_of (length shuffled) div 2 = 2 ^ (rounds_of (length shuffled) - 1)"
    using half_size(2)[OF n] by simp
  show ?thesis
    unfolding allMatches_bye(3)[OF n r(1) b] k
    using r(3) far'
    by (simp add: linked_def link_def firstRoundMatch_def nth_or_null_def Let_def)
qed


text \<open>
  Claim C6. For at least two participants \<open>generateBracket\<close> returns \<open>allMatches\<close> with
  \<open>2 ^ rounds - 1\<close> matches, and the collection afterwards is the old one followed by one
  new document per match. The round-1 matches are the entries of \<open>allMatches\<close> at the
  positions below \<open>size / 2\<close>; the one at position \<open>x\<close> has \<open>shuffled[x]\<close> as \<open>player1\<close>, and
  its \<open>player2\<close> is empty exactly when \<open>shuffled\<close> has no entry at \<open>size - 1 - x\<close>. Every
  round-1 match with exactly one empty slot is such a match, and when the participant
  count is not a power of two the match at position 0 is one. Such a match is created
  'completed' (so not 'scheduled') with \<open>shuffled[x]\<close>, the present participant, as winner;
  it is stored unchanged under its id; and after the build \<open>shuffled[x]\<close> stands in the slot
  \<open>nextMatchSlot\<close> of its successor \<open>nextMatchId\<close>, a stored round-2 match: the bye was
  advanced during the build. Moreover, if no older document of the collection names the
  id of the bye as its successor, then after every run of \<open>submitResult\<close> calls on the built
  bracket that returns (a run stops at the first exception, with the collection of the
  calls before it) the stored bye is still not 'scheduled', and it differs from the match
  as built in its \<open>claims\<close>, \<open>status\<close> and \<open>result\<close> at most.
\<close>

theorem round1_bye_completed_and_advanced:
  assumes n: "2 \<le> length shuffled" and inj: "inj newId"
    and fresh: "\<forall>y. getMatch (db st) (newId y) = None"
  shows "\<exists>st' allMatches stored.
      generateBracket st newId shuffled = Inr (st', allMatches)
      \<and> db st' = db st @ stored
      \<and> length allMatches = 2 ^ rounds_of (length shuffled) - 1
      \<and> length stored = length allMatches
      \<and> (\<forall>x < length allMatches.
            (round_m (allMatches ! x) = 1) = (x < size_of (length shuffled) div 2))
      \<and> (\<forall>x < size_of (length shuffled) div 2.
            player1 (allMatches ! x) = Some (p_id (shuffled ! x))
            \<and> (player2 (allMatches ! x) = None)
                = (length shuffled \<le> size_of (length shuffled) - 1 - x)
            \<and> (player2 (allMatches ! x) = None \<longrightarrow>
                 allMatches ! x =
                   \<lparr>oid = newId x, tournamentId = this_tournamentId st, round_m = 1,
                    player1 = Some (p_id (shuffled ! x)), player2 = None,
                    winner = Some (p_id (shuffled ! x)), status = completed,
                    nextMatchId = Some (newId (size_of (length shuffled) div 2 + x div 2)),
                    nextMatchSlot = Some (if even x then SlotPlayer1 else SlotPlayer2),
                    result = None, claims = None\<rparr>
                 \<and> stored ! x = allMatches ! x
                 \<and> getMatch (db st') (newId x) = Some (allMatches ! x)
                 \<and> (\<exists>nm. getMatch (db st') (newId (size_of (length shuffled) div 2 + x div 2))
                            = Some nm
                        \<and> nm = stored ! (size_of (length shuffled) div 2 + x div 2)
                        \<and> round_m nm = 2
                        \<and> slot_player (if even x then SlotPlayer1 else SlotPlayer2) nm
                            = Some (p_id (shuffled ! x)))
                 \<and> ((\<forall>d \<in> set (db st). nextMatchId d \<noteq> Some (newId x)) \<longrightarrow>
                      (\<forall>subs st''. submitResults st' subs = Inr st'' \<longrightarrow>
                         (\<exists>d. getMatch (db st'') (newId x) = Some d \<and> status d \<noteq> scheduled
                            \<and> d = (allMatches ! x)\<lparr>claims := claims d, status := status d,
                                                    result := result d\<rparr>)))))
      \<and> ((\<forall>r. length shuffled \<noteq> 2 ^ r) \<longrightarrow> player2 (allMatches ! 0) = None)
      \<and> (\<forall>m \<in> set allMatches.
            round_m m = 1 \<and> (player1 m = None) \<noteq> (player2 m = None) \<longrightarrow>
              (\<exists>x < size_of (length shuffled) div 2. m = allMatches ! x \<and> player2 m = None))"
proof -
  let ?al = "allMatches_of st newId shuffled"
  let ?sm = "stored_matches st newId shuffled"
  let ?K = "size_of (length shuffled) div 2"
  have fresh': "\<And>y. getMatch (db st) (newId y) = None" using fresh by simp
  obtain st' where g: "generateBracket st newId shuffled = Inr (st', ?al)"
    and d: "db st' = db st @ ?sm"
    using generateBracket_db[OF n inj fresh'] by blast
  have K: "?K = 2 ^ (rounds_of (length shuffled) - 1)"
    using half_size(2)[OF n] by simp
  have l1: "length ?al = 2 ^ rounds_of (length shuffled) - 1"
    by (rule allMatches_length(1)[OF n])
  have l2: "length ?sm = length ?al" by simp
  have rd: "\<forall>x < length ?al. (round_m (?al ! x) = 1) = (x < ?K)"
    using allMatches_round[OF n, of _ st newId] K by simp
  have bye_part: "?al ! x =
                   \<lparr>oid = newId x, tournamentId = this_tournamentId st, round_m = 1,
                    player1 = Some (p_id (shuffled ! x)), player2 = None,
                    winner = Some (p_id (shuffled ! x)), status = completed,
                    nextMatchId = Some (newId (?K + x div 2)),
                    nextMatchSlot = Some (if even x then SlotPlayer1 else SlotPlayer2),
                    result = None, claims = None\<rparr>
                 \<and> ?sm ! x = ?al ! x
                 \<and> getMatch (db st') (newId x) = Some (?al ! x)
                 \<and> (\<exists>nm. getMatch (db st') (newId (?K + x div 2)) = Some nm
                        \<and> nm = ?sm ! (?K + x div 2)
                        \<and> round_m nm = 2
                        \<and> slot_player (if even x then SlotPlayer1 else SlotPlayer2) nm
                            = Some (p_id (shuffled ! x)))
                 \<and> ((\<forall>d \<in> set (db st). nextMatchId d \<noteq> Some (newId x)) \<longrightarrow>
                      (\<forall>subs st''. submitResults st' subs = Inr st'' \<longrightarrow>
                         (\<exists>d. getMatch (db st'') (newId x) = Some d \<and> status d \<noteq> scheduled
                            \<and> d = (?al ! x)\<lparr>claims := claims d, status := status d,
                                              result := result d\<rparr>)))"
    if x: "x < ?K" and p2: "player2 (?al ! x) = None" for x
  proof -
    note r = round1_at(1,2,3)[OF n x]
    have far: "length shuffled \<le> size_of (length shuffled) - 1 - x"
      using round1_at(7)[OF n x, of st newId] p2 by (simp split: if_splits)
    have rec: "?al ! x =
                   \<lparr>oid = newId x, tournamentId = this_tournamentId st, round_m = 1,
                    player1 = Some (p_id (shuffled ! x)), player2 = None,
                    winner = Some (p_id (shuffled ! x)), status = completed,
                    nextMatchId = Some (newId (?K + x div 2)),
                    nextMatchSlot = Some (if even x then SlotPlayer1 else SlotPlayer2),
                    result = None, claims = None\<rparr>"
      by (rule round1_bye_record[OF n x far])
    have xl: "x < length ?al" by (rule r(2))
    have r1: "round_m (?al ! x) = 1" by (rule round1_at(5)[OF n x])
    note f = round1_bye_facts[OF n xl r1 p2]
    have same: "?sm ! x = ?al ! x" by (rule f(9))
    have own: "getMatch (db st') (newId x) = Some (?al ! x)"
      unfolding d using getMatch_stored[OF n inj fresh' xl] same by simp
    define j where "j = x div 2"
    have jk: "j < 2 ^ (rounds_of (length shuffled) - 1) div 2"
      using successor_index(1)[OF n f(2) r(1)] by (simp add: j_def)
    note ss = stored_successor[OF n f(2) jk, of st newId]
    have succ: "getMatch (db st') (newId (?K + j)) = Some (?sm ! (?K + j))"
      unfolding d K using ss(1) by (intro getMatch_stored[OF n inj fresh'])
    have w: "winner (?al ! x) = Some (p_id (shuffled ! x))" by (rule f(5))
    have slot: "slot_player (if even x then SlotPlayer1 else SlotPlayer2) (?sm ! (?K + j))
                  = Some (p_id (shuffled ! x))"
    proof (cases "even x")
      case True
      then have "2 * j = x" by (auto simp: j_def)
      then show ?thesis using True ss(3) f(3) w unfolding K by (simp add: slot_player_def)
    next
      case False
      then have "2 * j + 1 = x" by (simp add: j_def)
      then show ?thesis using False ss(4) f(3) w unfolding K by (simp add: slot_player_def)
    qed
    have rnd: "round_m (?sm ! (?K + j)) = 2" unfolding K by (rule ss(2))
    have successor: "\<exists>nm. getMatch (db st') (newId (?K + x div 2)) = Some nm
                        \<and> nm = ?sm ! (?K + x div 2)
                        \<and> round_m nm = 2
                        \<and> slot_player (if even x then SlotPlayer1 else SlotPlayer2) nm
                            = Some (p_id (shuffled ! x))"
      using succ rnd slot unfolding j_def by blast
    have never: "\<exists>d. getMatch (db st'') (newId x) = Some d \<and> status d \<noteq> scheduled
                     \<and> d = (?al ! x)\<lparr>claims := claims d, status := status d, result := result d\<rparr>"
      if old: "\<forall>d \<in> set (db st). nextMatchId d \<noteq> Some (newId x)"
        and run: "submitResults st' subs = Inr st''" for subs st''
    proof -
      have i2: "\<forall>d\<in>set (db st'). nextMatchId d \<noteq> Some (newId x)"
        unfolding d by (rule built_unlinked[OF n inj old r(1)])
      have ns: "status (?al ! x) \<noteq> scheduled" using f(4) by simp
      show ?thesis by (rule submitResults_unlinked[OF run own ns i2])
    qed
    show ?thesis using rec same own successor never by blast
  qed
  have pos: "\<forall>x < ?K.
            player1 (?al ! x) = Some (p_id (shuffled ! x))
            \<and> (player2 (?al ! x) = None) = (length shuffled \<le> size_of (length shuffled) - 1 - x)
            \<and> (player2 (?al ! x) = None \<longrightarrow>
                 ?al ! x =
                   \<lparr>oid = newId x, tournamentId = this_tournamentId st, round_m = 1,
                    player1 = Some (p_id (shuffled ! x)), player2 = None,
                    winner = Some (p_id (shuffled ! x)), status = completed,
                    nextMatchId = Some (newId (?K + x div 2)),
                    nextMatchSlot = Some (if even x then SlotPlayer1 else SlotPlayer2),
                    result = None, claims = None\<rparr>
                 \<and> ?sm ! x = ?al ! x
                 \<and> getMatch (db st') (newId x) = Some (?al ! x)
                 \<and> (\<exists>nm. getMatch (db st') (newId (?K + x div 2)) = Some nm
                        \<and> nm = ?sm ! (?K + x div 2)
                        \<and> round_m nm = 2
                        \<and> slot_player (if even x then SlotPlayer1 else SlotPlayer2) nm
                            = Some (p_id (shuffled ! x)))
                 \<and> ((\<forall>d \<in> set (db st). nextMatchId d \<noteq> Some (newId x)) \<longrightarrow>
                      (\<forall>subs st''. submitResults st' subs = Inr st'' \<longrightarrow>
                         (\<exists>d. getMatch (db st'') (newId x) = Some d \<and> status d \<noteq> scheduled
                            \<and> d = (?al ! x)\<lparr>claims := claims d, status := status d,
                                              result := result d\<rparr>))))"
  proof (intro allI impI)
    fix x assume x: "x < ?K"
    have a: "player1 (?al ! x) = Some (p_id (shuffled ! x))" by (rule round1_at(6)[OF n x])
    have b: "(player2 (?al ! x) = None) = (length shuffled \<le> size_of (length shuffled) - 1 - x)"
      using round1_at(7)[OF n x, of st newId] by auto
    show "player1 (?al ! x) = Some (p_id (shuffled ! x))
            \<and> (player2 (?al ! x) = None) = (length shuffled \<le> size_of (length shuffled) - 1 - x)
            \<and> (player2 (?al ! x) = None \<longrightarrow>
                 ?al ! x =
                   \<lparr>oid = newId x, tournamentId = this_tournamentId st, round_m = 1,
                    player1 = Some (p_id (shuffled ! x)), player2 = None,
                    winner = Some (p_id (shuffled ! x)), status = completed,
                    nextMatchId = Some (newId (?K + x div 2)),
                    nextMatchSlot = Some (if even x then SlotPlayer1 else SlotPlayer2),
                    result = None, claims = None\<rparr>
                 \<and> ?sm ! x = ?al ! x
                 \<and> getMatch (db st') (newId x) = Some (?al ! x)
                 \<and> (\<exists>nm. getMatch (db st') (newId (?K + x div 2)) = Some nm
                        \<and> nm = ?sm ! (?K + x div 2)
                        \<and> round_m nm = 2
                        \<and> slot_player (if even x then SlotPlayer1 else SlotPlayer2) nm
                            = Some (p_id (shuffled ! x)))
                 \<and> ((\<forall>d \<in> set (db st). nextMatchId d \<noteq> Some (newId x)) \<longrightarrow>
                      (\<forall>subs st''. submitResults st' subs = Inr st'' \<longrightarrow>
                         (\<exists>d. getMatch (db st'') (newId x) = Some d \<and> status d \<noteq> scheduled
                            \<and> d = (?al ! x)\<lparr>claims := claims d, status := status d,
                                              result := result d\<rparr>))))"
      by (intro conjI) (rule a, rule b, rule impI, rule bye_part[OF x], assumption)
  qed
  have K0: "0 < ?K" unfolding K by simp
  have first: "(\<forall>r. length shuffled \<noteq> 2 ^ r) \<longrightarrow> player2 (?al ! 0) = None"
  proof
    assume "\<forall>r. length shuffled \<noteq> 2 ^ r"
    then have "length shuffled \<noteq> 2 ^ rounds_of (length shuffled)" by blast
    then have "length shuffled < 2 ^ rounds_of (length shuffled)"
      using rounds_of_bounds(2)[OF n] by simp
    moreover have "shuffled \<noteq> []" using n by auto
    ultimately have "length shuffled < size_of (length shuffled)"
      unfolding size_of_def by simp
    then show "player2 (?al ! 0) = None"
      using round1_at(7)[OF n K0, of st newId] by auto
  qed
  have byset: "\<forall>m \<in> set ?al.
            round_m m = 1 \<and> (player1 m = None) \<noteq> (player2 m = None) \<longrightarrow>
              (\<exists>x < ?K. m = ?al ! x \<and> player2 m = None)"
  proof (intro ballI impI)
    fix m assume m: "m \<in> set ?al"
      and h: "round_m m = 1 \<and> (player1 m = None) \<noteq> (player2 m = None)"
    from m obtain x where x: "x < length ?al" "m = ?al ! x" by (rule in_set_nthE)
    have xK: "x < ?K" using rd x h by simp
    have "player1 m \<noteq> None" using round1_at(6)[OF n xK, of st newId] x(2) by simp
    then have "player2 m = None" using h by auto
    then show "\<exists>x < ?K. m = ?al ! x \<and> player2 m = None" using xK x(2) by blast
  qed
  have "generateBracket st newId shuffled = Inr (st', ?al)
      \<and> db st' = db st @ ?sm
      \<and> length ?al = 2 ^ rounds_of (length shuffled) - 1
      \<and> length ?sm = length ?al
      \<and> (\<forall>x < length ?al. (round_m (?al ! x) = 1) = (x < ?K))
      \<and> (\<forall>x < ?K.
            player1 (?al ! x) = Some (p_id (shuffled ! x))
            \<and> (player2 (?al ! x) = None) = (length shuffled \<le> size_of (length shuffled) - 1 - x)
            \<and> (player2 (?al ! x) = None \<longrightarrow>
                 ?al ! x =
                   \<lparr>oid = newId x, tournamentId = this_tournamentId st, round_m = 1,
                    player1 = Some (p_id (shuffled ! x)), player2 = None,
                    winner = Some (p_id (shuffled ! x)), status = completed,
                    nextMatchId = Some (newId (?K + x div 2)),
                    nextMatchSlot = Some (if even x then SlotPlayer1 else SlotPlayer2),
                    result = None, claims = None\<rparr>
                 \<and> ?sm ! x = ?al ! x
                 \<and> getMatch (db st') (newId x) = Some (?al ! x)
                 \<and> (\<exists>nm. getMatch (db st') (newId (?K + x div 2)) = Some nm
                        \<and> nm = ?sm ! (?K + x div 2)
                        \<and> round_m nm = 2
                        \<and> slot_player (if even x then SlotPlayer1 else SlotPlayer2) nm
                            = Some (p_id (shuffled ! x)))
                 \<and> ((\<forall>d \<in> set (db st). nextMatchId d \<noteq> Some (newId x)) \<longrightarrow>
                      (\<forall>subs st''. submitResults st' subs = Inr st'' \<longrightarrow>
                         (\<exists>d. getMatch (db st'') (newId x) = Some d \<and> status d \<noteq> scheduled
                            \<and> d = (?al ! x)\<lparr>claims := claims d, status := status d,
                                              result := result d\<rparr>)))))
      \<and> ((\<forall>r. length shuffled \<noteq> 2 ^ r) \<longrightarrow> player2 (?al ! 0) = None)
      \<and> (\<forall>m \<in> set ?al.
            round_m m = 1 \<and> (player1 m = None) \<noteq> (player2 m = None) \<longrightarrow>
              (\<exists>x < ?K. m = ?al ! x \<and> player2 m = None))"
    by (intro conjI) (rule g d l1 l2 rd pos first byset)+
  then show ?thesis by (intro exI)
qed


section \<open>Advancement into the successor\<close>

lemma slot_player_place:
  "slot_player sl (schedule_if_full (place_winner (Some sl) w nm)) = w"
  "slot_player (other_slot sl) (schedule_if_full (place_winner (Some sl) w nm))
     = slot_player (other_slot sl) nm"
  by (cases sl; simp add: slot_player_def other_slot_def place_winner_def schedule_if_full_def)+

lemma placed_record:
  "schedule_if_full (place_winner (Some sl) w nm) =
     nm\<lparr>player1 := player1 (schedule_if_full (place_winner (Some sl) w nm)),
        player2 := player2 (schedule_if_full (place_winner (Some sl) w nm)),
        status := status (schedule_if_full (place_winner (Some sl) w nm))\<rparr>"
  by (cases sl; simp add: place_winner_def schedule_if_full_def)

lemma placed_status:
  "status (schedule_if_full (place_winner (Some sl) w nm)) =
     (if player1 (schedule_if_full (place_winner (Some sl) w nm)) \<noteq> None
         \<and> player2 (schedule_if_full (place_winner (Some sl) w nm)) \<noteq> None
      then scheduled else status nm)"
  by (cases sl; auto simp: place_winner_def schedule_if_full_def)

lemma advanceWinner_places:
  fixes w :: uid
  assumes m: "getMatch (db st) matchId = Some m" and nid: "nextMatchId m = Some nid"
    and nm: "getMatch (db st) nid = Some nm" and sl: "nextMatchSlot m = Some sl"
    and p1: "player1 m = Some p1"
  defines "nm' \<equiv> schedule_if_full (place_winner (Some sl)
                     (if p1 = w then Some p1 else player2 m) nm)"
  shows "\<exists>st'. advanceWinner st matchId w = Inr st'
           \<and> getMatch (db st') nid = Some nm'
           \<and> (\<forall>j. j \<noteq> nid \<longrightarrow> getMatch (db st') j = getMatch (db st) j)
           \<and> this_status st' = this_status st"
proof -
  have o: "oid nm' = nid" using getMatch_oid[OF nm] by (simp add: nm'_def)
  have adv: "advanceWinner st matchId w = Inr (st\<lparr>db := updateOne nid (\<lambda>d. nm') (db st)\<rparr>)"
    using m nid nm sl p1 by (simp add: advanceWinner_def nm'_def)
  have g: "getMatch (updateOne nid (\<lambda>d. nm') (db st)) j =
           (if j = nid then map_option (\<lambda>d. nm') (getMatch (db st) nid) else getMatch (db st) j)" for j
    by (rule getMatch_updateOne) (simp add: o)
  show ?thesis
    unfolding adv using g nm by simp
qed

lemma two_byes_schedule_successor:
  assumes n: "2 \<le> length shuffled" and inj: "inj newId"
    and fresh: "\<And>y. getMatch (db st) (newId y) = None"
    and d: "db st' = db st @ stored_matches st newId shuffled"
    and m1: "m1 \<in> set (allMatches_of st newId shuffled)"
    and m2: "m2 \<in> set (allMatches_of st newId shuffled)"
    and h: "round_m m1 = 1 \<and> round_m m2 = 1 \<and> player2 m1 = None \<and> player2 m2 = None
            \<and> m1 \<noteq> m2 \<and> nextMatchId m1 = nextMatchId m2"
  shows "\<exists>nid nm. nextMatchId m1 = Some nid \<and> getMatch (db st') nid = Some nm
           \<and> round_m nm = 2 \<and> status nm = scheduled
           \<and> {player1 nm, player2 nm} = {winner m1, winner m2}
           \<and> player1 nm \<noteq> None \<and> player2 nm \<noteq> None"
proof -
  define al where "al = allMatches_of st newId shuffled"
  define k where "k = (2::nat) ^ (rounds_of (length shuffled) - 1)"
  from m1 obtain x1 where x1: "x1 < length (allMatches_of st newId shuffled)"
    "m1 = allMatches_of st newId shuffled ! x1" by (rule in_set_nthE)
  from m2 obtain x2 where x2: "x2 < length (allMatches_of st newId shuffled)"
    "m2 = allMatches_of st newId shuffled ! x2" by (rule in_set_nthE)
  have r1: "round_m (allMatches_of st newId shuffled ! x1) = 1"
    and q1: "player2 (allMatches_of st newId shuffled ! x1) = None"
    and r2: "round_m (allMatches_of st newId shuffled ! x2) = 1"
    and q2: "player2 (allMatches_of st newId shuffled ! x2) = None"
    using h x1(2) x2(2) by simp_all
  note f1 = round1_bye_facts[OF n x1(1) r1 q1, folded al_def k_def]
  note f2 = round1_bye_facts[OF n x2(1) r2 q2, folded al_def k_def]
  have ne: "x1 \<noteq> x2" using h x1(2) x2(2) by auto
  have "newId (k + x1 div 2) = newId (k + x2 div 2)"
    using h f1(7) f2(7) x1(2) x2(2) by (simp add: al_def)
  then have same: "x1 div 2 = x2 div 2" using inj by (simp add: inj_eq)
  define j where "j = x1 div 2"
  have xk: "x1 < 2 ^ (rounds_of (length shuffled) - 1)" using f1(1) by (simp add: k_def)
  have jk: "j < 2 ^ (rounds_of (length shuffled) - 1) div 2"
    using successor_index(1)[OF n f1(2) xk] by (simp add: j_def)
  note ss = stored_successor[OF n f1(2) jk, of st newId, folded al_def k_def]
  have pair: "(x1 = 2 * j \<and> x2 = 2 * j + 1) \<or> (x2 = 2 * j \<and> x1 = 2 * j + 1)"
  proof -
    have e1: "x1 = 2 * j + x1 mod 2" by (simp add: j_def)
    have e2: "x2 = 2 * j + x2 mod 2" using same by (simp add: j_def)
    have d: "x1 mod 2 \<noteq> x2 mod 2" using ne e1 e2 by metis
    have b1: "x1 mod 2 = 0 \<or> x1 mod 2 = 1" and b2: "x2 mod 2 = 0 \<or> x2 mod 2 = 1"
      by auto
    from b1 b2 d have "(x1 mod 2 = 0 \<and> x2 mod 2 = 1) \<or> (x2 mod 2 = 0 \<and> x1 mod 2 = 1)"
      by auto
    then show ?thesis using e1 e2 by auto
  qed
  define nm where "nm = stored_matches st newId shuffled ! (k + j)"
  have g: "getMatch (db st') (newId (k + j)) = Some nm"
    unfolding d nm_def using ss(1) by (intro getMatch_stored[OF n inj fresh]) (simp add: al_def)
  have b: "bye (al ! (2 * j))" "bye (al ! (2 * j + 1))"
    using pair f1(3) f2(3) by auto
  have w: "{winner (al ! (2 * j)), winner (al ! (2 * j + 1))} = {winner m1, winner m2}"
    using pair x1(2) x2(2) by (auto simp: al_def)
  have some: "winner (al ! (2 * j)) \<noteq> None" "winner (al ! (2 * j + 1)) \<noteq> None"
    using b by (simp_all add: bye_def)
  have "nextMatchId m1 = Some (newId (k + j)) \<and> getMatch (db st') (newId (k + j)) = Some nm
        \<and> round_m nm = 2 \<and> status nm = scheduled
        \<and> {player1 nm, player2 nm} = {winner m1, winner m2}
        \<and> player1 nm \<noteq> None \<and> player2 nm \<noteq> None"
    using f1(7) x1(2) g ss(2,3,4,5) b w some by (simp add: nm_def al_def j_def)
  then show ?thesis by blast
qed

lemma bye_round1:
  assumes n: "2 \<le> length shuffled" and x: "x < size_of (length shuffled) div 2"
  shows "bye (allMatches_of st newId shuffled ! x)
           = (player2 (allMatches_of st newId shuffled ! x) = None)"
  using round1_at(7,8,9)[OF n x, of st newId] by (simp add: bye_def)

lemma round1_successor:
  assumes n: "2 \<le> length shuffled" and x: "x < size_of (length shuffled) div 2"
    and R: "2 \<le> rounds_of (length shuffled)"
  shows "nextMatchId (allMatches_of st newId shuffled ! x)
           = Some (newId (size_of (length shuffled) div 2 + x div 2))"
    and "nextMatchSlot (allMatches_of st newId shuffled ! x)
           = Some (if even x then SlotPlayer1 else SlotPlayer2)"
proof -
  have K: "size_of (length shuffled) div 2 = 2 ^ (rounds_of (length shuffled) - 1)"
    using half_size(2)[OF n] by simp
  note k = round1_at(1)[OF n x]
  show "nextMatchId (allMatches_of st newId shuffled ! x)
           = Some (newId (size_of (length shuffled) div 2 + x div 2))"
    unfolding K using allMatches_first[OF n k, of st newId] R by simp
  show "nextMatchSlot (allMatches_of st newId shuffled ! x)
           = Some (if even x then SlotPlayer1 else SlotPlayer2)"
    using allMatches_first[OF n k, of st newId] R by simp
qed

text \<open>The round-2 match fed by the round-1 matches at the positions \<open>2j\<close> and \<open>2j + 1\<close>.\<close>

lemma round2_at:
  fixes st :: bracket and newId :: "nat \<Rightarrow> oid" and shuffled :: "participant list"
  assumes n: "2 \<le> length shuffled" and inj: "inj newId"
    and fresh: "\<And>y. getMatch (db st) (newId y) = None"
    and j: "2 * j + 1 < size_of (length shuffled) div 2"
  defines "al \<equiv> allMatches_of st newId shuffled"
    and "sm \<equiv> stored_matches st newId shuffled"
    and "K \<equiv> size_of (length shuffled) div 2"
  shows "K + j < length sm"
    and "getMatch (db st @ sm) (newId (K + j)) = Some (sm ! (K + j))"
    and "nextMatchId (al ! (2 * j)) = Some (newId (K + j))"
    and "nextMatchSlot (al ! (2 * j)) = Some SlotPlayer1"
    and "nextMatchId (al ! (2 * j + 1)) = Some (newId (K + j))"
    and "nextMatchSlot (al ! (2 * j + 1)) = Some SlotPlayer2"
    and "round_m (al ! (2 * j)) = 1" and "round_m (al ! (2 * j + 1)) = 1"
    and "round_m (sm ! (K + j)) = 2"
    and "status (sm ! (K + j))
           = (if player2 (al ! (2 * j)) = None \<and> player2 (al ! (2 * j + 1)) = None
              then scheduled else pending)"
    and "player1 (sm ! (K + j))
           = (if player2 (al ! (2 * j)) = None then Some (p_id (shuffled ! (2 * j))) else None)"
    and "player2 (sm ! (K + j))
           = (if player2 (al ! (2 * j + 1)) = None then Some (p_id (shuffled ! (2 * j + 1)))
              else None)"
proof -
  have Kk: "K = 2 ^ (rounds_of (length shuffled) - 1)"
    using half_size(2)[OF n] by (simp add: K_def)
  have x1: "2 * j < size_of (length shuffled) div 2" using j by simp
  have R: "2 \<le> rounds_of (length shuffled)"
  proof (rule ccontr)
    assume "\<not> 2 \<le> rounds_of (length shuffled)"
    then have "rounds_of (length shuffled) - 1 = 0" by simp
    then have "K = 1" using Kk by simp
    then show False using j by (simp add: K_def)
  qed
  have "rounds_of (length shuffled) = Suc (Suc (rounds_of (length shuffled) - 2))"
    using R by simp
  then obtain R'' where R': "rounds_of (length shuffled) = Suc (Suc R'')" ..
  have Ke: "K = 2 * 2 ^ R''" using Kk R' by simp
  have jk: "j < 2 ^ (rounds_of (length shuffled) - 1) div 2"
    using j Ke R' by (simp add: K_def)
  note ss = stored_successor[OF n R jk, of st newId, folded Kk al_def sm_def]
  show kl: "K + j < length sm" using ss(1) by (simp add: sm_def al_def)
  then have kl': "K + j < length (allMatches_of st newId shuffled)" by (simp add: sm_def)
  show "getMatch (db st @ sm) (newId (K + j)) = Some (sm ! (K + j))"
    unfolding sm_def by (rule getMatch_stored[OF n inj fresh kl'])
  have d1: "2 * j div 2 = j" and d2: "(2 * j + 1) div 2 = j" by simp_all
  show "nextMatchId (al ! (2 * j)) = Some (newId (K + j))"
    using round1_successor(1)[OF n x1 R, of st newId] by (simp add: al_def K_def)
  show "nextMatchSlot (al ! (2 * j)) = Some SlotPlayer1"
    using round1_successor(2)[OF n x1 R, of st newId] by (simp add: al_def)
  show "nextMatchId (al ! (2 * j + 1)) = Some (newId (K + j))"
    using round1_successor(1)[OF n j R, of st newId] by (simp add: al_def K_def)
  show "nextMatchSlot (al ! (2 * j + 1)) = Some SlotPlayer2"
    using round1_successor(2)[OF n j R, of st newId] by (simp add: al_def)
  show "round_m (al ! (2 * j)) = 1" unfolding al_def by (rule round1_at(5)[OF n x1])
  show "round_m (al ! (2 * j + 1)) = 1" unfolding al_def by (rule round1_at(5)[OF n j])
  show "round_m (sm ! (K + j)) = 2" by (rule ss(2))
  note b1 = bye_round1[OF n x1, of st newId, folded al_def]
  note b2 = bye_round1[OF n j, of st newId, folded al_def]
  have w1: "winner (al ! (2 * j))
              = (if player2 (al ! (2 * j)) = None then Some (p_id (shuffled ! (2 * j))) else None)"
    using round1_at(7,9)[OF n x1, of st newId] by (simp add: al_def)
  have w2: "winner (al ! (2 * j + 1))
              = (if player2 (al ! (2 * j + 1)) = None then Some (p_id (shuffled ! (2 * j + 1)))
                 else None)"
    using round1_at(7,9)[OF n j, of st newId] by (simp add: al_def)
  show "status (sm ! (K + j))
           = (if player2 (al ! (2 * j)) = None \<and> player2 (al ! (2 * j + 1)) = None
              then scheduled else pending)"
    using ss(5) b1 b2 by simp
  show "player1 (sm ! (K + j))
           = (if player2 (al ! (2 * j)) = None then Some (p_id (shuffled ! (2 * j))) else None)"
    using ss(3) b1 w1 by simp
  show "player2 (sm ! (K + j))
           = (if player2 (al ! (2 * j + 1)) = None then Some (p_id (shuffled ! (2 * j + 1)))
              else None)"
    using ss(4) b2 w2 by simp
qed

text \<open>Consensus through \<open>submitResult\<close>: what has reached the successor afterwards.\<close>

lemma submitResult_advances:
  assumes found: "getMatch (db st) matchId = Some m0"
    and cl: "cl = record_claim m0 userId
                 \<lparr>winnerId = wId, scores = sc, claim_proof = prf, timestamp = now\<rparr>"
    and c1: "claims_get cl (player1 m0) = Some c1"
    and c2: "claims_get cl (player2 m0) = Some c2"
    and agree: "winnerId c1 = winnerId c2"
    and nid: "nextMatchId m0 = Some nid" and ne: "nid \<noteq> matchId"
    and nm: "getMatch (db st) nid = Some nm" and sl: "nextMatchSlot m0 = Some sl"
  shows "\<exists>st' m' nm'. submitResult st matchId userId wId sc prf now = Inr (st', Some m')
           \<and> status m' = completed
           \<and> getMatch (db st') nid = Some nm'
           \<and> slot_player sl nm'
               = (if player1 m0 = Some (winnerId c1) then player1 m0 else player2 m0)
           \<and> slot_player (other_slot sl) nm' = slot_player (other_slot sl) nm
           \<and> status nm' = (if player1 nm' \<noteq> None \<and> player2 nm' \<noteq> None
                           then scheduled else status nm)
           \<and> nm' = nm\<lparr>player1 := player1 nm', player2 := player2 nm', status := status nm'\<rparr>"
proof -
  have "player1 m0 \<noteq> None" using c1 by (rule claims_get_Some_D)
  then obtain p1 where p1: "player1 m0 = Some p1" by auto
  define placed where "placed = (if p1 = winnerId c1 then Some p1 else player2 m0)"
  define nm' where "nm' = schedule_if_full (place_winner (Some sl) placed nm)"
  obtain st1 m' where r: "submitResult st matchId userId wId sc prf now = Inr (save_match st1 m', Some m')"
    and o: "oid m' = matchId"
    and out: "(case (claims_get cl (player1 m0), claims_get cl (player2 m0)) of
                 (Some c1, Some c2) \<Rightarrow>
                   if winnerId c1 = winnerId c2
                   then status m' = completed
                        \<and> result m' = Some \<lparr>res_scores = scores c1,
                                             res_timestamp = now\<rparr>
                        \<and> advanceWinner st matchId (winnerId c1) = Inr st1
                   else status m' = dispute \<and> result m' = result m0 \<and> st1 = st
               | _ \<Rightarrow> status m' = awaiting_confirmation \<and> result m' = result m0 \<and> st1 = st)"
    using submitResult_found[OF found cl] by blast
  have fin: "status m' = completed" and adv: "advanceWinner st matchId (winnerId c1) = Inr st1"
    using out c1 c2 agree by simp_all
  obtain st'' where adv': "advanceWinner st matchId (winnerId c1) = Inr st''"
    and g: "getMatch (db st'') nid = Some nm'"
    using advanceWinner_places[OF found nid nm sl p1, of "winnerId c1"]
    unfolding nm'_def placed_def by blast
  have "st'' = st1" using adv adv' by simp
  then have g1: "getMatch (db st1) nid = Some nm'" using g by simp
  have g2: "getMatch (db (save_match st1 m')) nid = Some nm'"
    using g1 ne o by (simp add: getMatch_save_match)
  have s1: "slot_player sl nm' = placed"
    and s2: "slot_player (other_slot sl) nm' = slot_player (other_slot sl) nm"
    unfolding nm'_def by (rule slot_player_place)+
  have s1': "slot_player sl nm'
               = (if player1 m0 = Some (winnerId c1) then player1 m0 else player2 m0)"
    unfolding s1 placed_def using p1 by auto
  have s4: "status nm' = (if player1 nm' \<noteq> None \<and> player2 nm' \<noteq> None
                          then scheduled else status nm)"
    unfolding nm'_def by (rule placed_status)
  have s5: "nm' = nm\<lparr>player1 := player1 nm', player2 := player2 nm', status := status nm'\<rparr>"
    unfolding nm'_def by (rule placed_record)
  show ?thesis
    by (rule exI[of _ "save_match st1 m'"], rule exI[of _ m'], rule exI[of _ nm'], intro conjI)
       (rule r fin g2 s1' s2 s4 s5)+
qed

text \<open>
  Claim C7, as stated, fails. \<open>advanceWinner\<close> does not look for the player whose id is
  \<open>winnerId\<close>: it takes \<open>player1\<close> when that id is \<open>winnerId\<close> and \<open>player2\<close> otherwise, and
  nothing on the way from \<open>submitResult\<close> checks that the agreed id belongs to the match.
  In the example bracket users 1 and 4, the two players of match 0, both claim the match
  for the id 9. The match is finalized ('completed') and advancement puts user 4, its
  \<open>player2\<close>, into slot player1 of match 2: what has advanced is not the agreed winner.
\<close>

theorem agreed_outsider_advances_player2_counterexample:
  "submitResults ex_bracket [ex_sub 0 1 9 1, ex_sub 0 4 9 2] = Inr ex_outsider_won
   \<and> getMatch (db ex_outsider_won) 0
       = Some (ex_m0\<lparr>status := completed,
                     result := Some \<lparr>res_scores = None, res_timestamp = 2\<rparr>,
                     claims := Some [(1, ex_claim 9 1), (4, ex_claim 9 2)]\<rparr>)
   \<and> player1 ex_m0 = Some 1 \<and> player2 ex_m0 = Some 4
   \<and> nextMatchId ex_m0 = Some 2 \<and> nextMatchSlot ex_m0 = Some SlotPlayer1
   \<and> winnerId (ex_claim 9 1) = 9 \<and> winnerId (ex_claim 9 2) = 9
   \<and> getMatch (db ex_outsider_won) 2 = Some (ex_m2\<lparr>player1 := Some 4\<rparr>)
   \<and> player1 (ex_m2\<lparr>player1 := Some 4\<rparr>) \<noteq> Some 9
   \<and> advanceWinner ex_bracket 0 9 = Inr (ex_bracket\<lparr>db := [ex_m0, ex_m1, ex_m2\<lparr>player1 := Some 4\<rparr>]\<rparr>)"
  by (simp add: ex_defs ex_outsider_won_def run_defs)

text \<open>
  Claim C7, amended. For every stored match with a stored successor \<open>nextMatchId\<close>, a
  \<open>nextMatchSlot\<close> and a \<open>player1\<close>, \<open>advanceWinner\<close> returns and has put \<open>player1\<close>, when its
  id is the winner id, and \<open>player2\<close> otherwise into exactly the slot of the successor that
  \<open>nextMatchSlot\<close> names: hence the winner whenever the winner id is the id of one of the
  two players. The other slot is as before, the successor's status is 'scheduled' if both
  its slots are now filled and as before otherwise, nothing else of the successor changes,
  and no other match and not the bracket's status changes. The same holds for the
  advancement that \<open>submitResult\<close> runs when it finalizes a match on agreeing claims (for a
  successor other than the match itself): the call returns the match 'completed', and the
  stored successor afterwards is as just described, for the agreed winner id.

  Consequently, after \<open>generateBracket\<close> for at least two participants, where the collection
  is the old one followed by the new documents: the round-2 match at position
  \<open>size / 2 + j\<close> is the successor of the round-1 matches at the positions \<open>2j\<close> (slot
  player1) and \<open>2j + 1\<close> (slot player2); it is stored under its id; and its stored status
  is 'scheduled' if both feeders are byes, that is have no \<open>player2\<close>, which is the case
  exactly when \<open>shuffled\<close> has no entry at \<open>size - 1 - 2j\<close> and at \<open>size - 1 - (2j + 1)\<close>, and
  'pending' otherwise. If both are byes, its players are \<open>shuffled[2j]\<close> and
  \<open>shuffled[2j + 1]\<close>, the winners of the two byes. And whenever two different round-1
  matches without \<open>player2\<close> in \<open>allMatches\<close> name the same successor, that successor is a
  stored round-2 match in status 'scheduled' whose two players are the two bye winners.
\<close>

theorem winner_advances_into_named_slot:
  "(\<forall>m nid nm sl p1.
      getMatch (db st) matchId = Some m \<and> nextMatchId m = Some nid
      \<and> getMatch (db st) nid = Some nm \<and> nextMatchSlot m = Some sl \<and> player1 m = Some p1 \<longrightarrow>
      (\<exists>st' nm'. advanceWinner st matchId w = Inr st'
          \<and> getMatch (db st') nid = Some nm'
          \<and> slot_player sl nm' = (if p1 = w then Some p1 else player2 m)
          \<and> (p1 = w \<or> player2 m = Some w \<longrightarrow> slot_player sl nm' = Some w)
          \<and> slot_player (other_slot sl) nm' = slot_player (other_slot sl) nm
          \<and> status nm' = (if player1 nm' \<noteq> None \<and> player2 nm' \<noteq> None
                          then scheduled else status nm)
          \<and> nm' = nm\<lparr>player1 := player1 nm', player2 := player2 nm', status := status nm'\<rparr>
          \<and> (\<forall>j. j \<noteq> nid \<longrightarrow> getMatch (db st') j = getMatch (db st) j)
          \<and> this_status st' = this_status st))
   \<and> (\<forall>m0 cl c1 c2 nid nm sl.
      getMatch (db st) matchId = Some m0
      \<and> cl = record_claim m0 userId
                 \<lparr>winnerId = wId, scores = sc, claim_proof = prf, timestamp = now\<rparr>
      \<and> claims_get cl (player1 m0) = Some c1 \<and> claims_get cl (player2 m0) = Some c2
      \<and> winnerId c1 = winnerId c2
      \<and> nextMatchId m0 = Some nid \<and> nid \<noteq> matchId
      \<and> getMatch (db st) nid = Some nm \<and> nextMatchSlot m0 = Some sl \<longrightarrow>
      (\<exists>st' m' nm'. submitResult st matchId userId wId sc prf now = Inr (st', Some m')
          \<and> status m' = completed
          \<and> getMatch (db st') nid = Some nm'
          \<and> slot_player sl nm'
              = (if player1 m0 = Some (winnerId c1) then player1 m0 else player2 m0)
          \<and> (player1 m0 = Some (winnerId c1) \<or> player2 m0 = Some (winnerId c1) \<longrightarrow>
                slot_player sl nm' = Some (winnerId c1))
          \<and> slot_player (other_slot sl) nm' = slot_player (other_slot sl) nm
          \<and> status nm' = (if player1 nm' \<noteq> None \<and> player2 nm' \<noteq> None
                          then scheduled else status nm)
          \<and> nm' = nm\<lparr>player1 := player1 nm', player2 := player2 nm', status := status nm'\<rparr>))
   \<and> (2 \<le> length shuffled \<and> inj newId \<and> (\<forall>y. getMatch (db bst) (newId y) = None) \<longrightarrow>
      (\<exists>st' allMatches stored. generateBracket bst newId shuffled = Inr (st', allMatches)
         \<and> db st' = db bst @ stored
         \<and> length stored = length allMatches
         \<and> (\<forall>j. 2 * j + 1 < size_of (length shuffled) div 2 \<longrightarrow>
              size_of (length shuffled) div 2 + j < length stored
              \<and> getMatch (db st') (newId (size_of (length shuffled) div 2 + j))
                  = Some (stored ! (size_of (length shuffled) div 2 + j))
              \<and> round_m (stored ! (size_of (length shuffled) div 2 + j)) = 2
              \<and> round_m (allMatches ! (2 * j)) = 1
              \<and> nextMatchId (allMatches ! (2 * j))
                  = Some (newId (size_of (length shuffled) div 2 + j))
              \<and> nextMatchSlot (allMatches ! (2 * j)) = Some SlotPlayer1
              \<and> round_m (allMatches ! (2 * j + 1)) = 1
              \<and> nextMatchId (allMatches ! (2 * j + 1))
                  = Some (newId (size_of (length shuffled) div 2 + j))
              \<and> nextMatchSlot (allMatches ! (2 * j + 1)) = Some SlotPlayer2
              \<and> (player2 (allMatches ! (2 * j)) = None)
                  = (length shuffled \<le> size_of (length shuffled) - 1 - 2 * j)
              \<and> (player2 (allMatches ! (2 * j + 1)) = None)
                  = (length shuffled \<le> size_of (length shuffled) - 1 - (2 * j + 1))
              \<and> status (stored ! (size_of (length shuffled) div 2 + j))
                  = (if player2 (allMatches ! (2 * j)) = None
                        \<and> player2 (allMatches ! (2 * j + 1)) = None
                     then scheduled else pending)
              \<and> (player2 (allMatches ! (2 * j)) = None
                    \<and> player2 (allMatches ! (2 * j + 1)) = None \<longrightarrow>
                  status (allMatches ! (2 * j)) = completed
                  \<and> winner (allMatches ! (2 * j)) = Some (p_id (shuffled ! (2 * j)))
                  \<and> status (allMatches ! (2 * j + 1)) = completed
                  \<and> winner (allMatches ! (2 * j + 1)) = Some (p_id (shuffled ! (2 * j + 1)))
                  \<and> status (stored ! (size_of (length shuffled) div 2 + j)) = scheduled
                  \<and> player1 (stored ! (size_of (length shuffled) div 2 + j))
                      = Some (p_id (shuffled ! (2 * j)))
                  \<and> player2 (stored ! (size_of (length shuffled) div 2 + j))
                      = Some (p_id (shuffled ! (2 * j + 1)))))
         \<and> (\<forall>m1 \<in> set allMatches. \<forall>m2 \<in> set allMatches.
              round_m m1 = 1 \<and> round_m m2 = 1 \<and> player2 m1 = None \<and> player2 m2 = None
              \<and> m1 \<noteq> m2 \<and> nextMatchId m1 = nextMatchId m2 \<longrightarrow>
              (\<exists>nid nm. nextMatchId m1 = Some nid \<and> getMatch (db st') nid = Some nm
                 \<and> round_m nm = 2 \<and> status nm = scheduled
                 \<and> {player1 nm, player2 nm} = {winner m1, winner m2}
                 \<and> player1 nm \<noteq> None \<and> player2 nm \<noteq> None))))"
proof (intro conjI allI impI)
  fix m nid nm sl p1
  assume a: "getMatch (db st) matchId = Some m \<and> nextMatchId m = Some nid
      \<and> getMatch (db st) nid = Some nm \<and> nextMatchSlot m = Some sl \<and> player1 m = Some p1"
  define placed where "placed = (if p1 = w then Some p1 else player2 m)"
  define nm' where "nm' = schedule_if_full (place_winner (Some sl) placed nm)"
  obtain st' where adv: "advanceWinner st matchId w = Inr st'"
    and g: "getMatch (db st') nid = Some nm'"
    and other: "\<forall>j. j \<noteq> nid \<longrightarrow> getMatch (db st') j = getMatch (db st) j"
    and ts: "this_status st' = this_status st"
    using advanceWinner_places[of st matchId m nid nm sl p1 w] a
    unfolding nm'_def placed_def by blast
  have s1: "slot_player sl nm' = placed"
    and s2: "slot_player (other_slot sl) nm' = slot_player (other_slot sl) nm"
    unfolding nm'_def by (rule slot_player_place)+
  have s3: "p1 = w \<or> player2 m = Some w \<longrightarrow> slot_player sl nm' = Some w"
    unfolding s1 placed_def by auto
  have s4: "status nm' = (if player1 nm' \<noteq> None \<and> player2 nm' \<noteq> None
                          then scheduled else status nm)"
    unfolding nm'_def by (rule placed_status)
  have s5: "nm' = nm\<lparr>player1 := player1 nm', player2 := player2 nm', status := status nm'\<rparr>"
    unfolding nm'_def by (rule placed_record)
  show "\<exists>st' nm'. advanceWinner st matchId w = Inr st'
          \<and> getMatch (db st') nid = Some nm'
          \<and> slot_player sl nm' = (if p1 = w then Some p1 else player2 m)
          \<and> (p1 = w \<or> player2 m = Some w \<longrightarrow> slot_player sl nm' = Some w)
          \<and> slot_player (other_slot sl) nm' = slot_player (other_slot sl) nm
          \<and> status nm' = (if player1 nm' \<noteq> None \<and> player2 nm' \<noteq> None
                          then scheduled else status nm)
          \<and> nm' = nm\<lparr>player1 := player1 nm', player2 := player2 nm', status := status nm'\<rparr>
          \<and> (\<forall>j. j \<noteq> nid \<longrightarrow> getMatch (db st') j = getMatch (db st) j)
          \<and> this_status st' = this_status st"
    by (rule exI[of _ st'], rule exI[of _ nm'], intro conjI)
       (rule adv g s1[unfolded placed_def] s2 s3 s4 s5 other ts)+
next
  fix m0 cl c1 c2 nid nm sl
  assume a: "getMatch (db st) matchId = Some m0
      \<and> cl = record_claim m0 userId
                 \<lparr>winnerId = wId, scores = sc, claim_proof = prf, timestamp = now\<rparr>
      \<and> claims_get cl (player1 m0) = Some c1 \<and> claims_get cl (player2 m0) = Some c2
      \<and> winnerId c1 = winnerId c2
      \<and> nextMatchId m0 = Some nid \<and> nid \<noteq> matchId
      \<and> getMatch (db st) nid = Some nm \<and> nextMatchSlot m0 = Some sl"
  then have found: "getMatch (db st) matchId = Some m0"
    and cl: "cl = record_claim m0 userId
                 \<lparr>winnerId = wId, scores = sc, claim_proof = prf, timestamp = now\<rparr>"
    and c: "claims_get cl (player1 m0) = Some c1" "claims_get cl (player2 m0) = Some c2"
      "winnerId c1 = winnerId c2"
    and nx: "nextMatchId m0 = Some nid" "nid \<noteq> matchId" "getMatch (db st) nid = Some nm"
      "nextMatchSlot m0 = Some sl"
    by blast+
  obtain st' m' nm' where r: "submitResult st matchId userId wId sc prf now = Inr (st', Some m')"
    and fin: "status m' = completed"
    and g: "getMatch (db st') nid = Some nm'"
    and s1: "slot_player sl nm'
              = (if player1 m0 = Some (winnerId c1) then player1 m0 else player2 m0)"
    and s2: "slot_player (other_slot sl) nm' = slot_player (other_slot sl) nm"
    and s4: "status nm' = (if player1 nm' \<noteq> None \<and> player2 nm' \<noteq> None
                          then scheduled else status nm)"
    and s5: "nm' = nm\<lparr>player1 := player1 nm', player2 := player2 nm', status := status nm'\<rparr>"
    using submitResult_advances[OF found cl c nx] by (elim exE conjE) (rule that)
  have s3: "player1 m0 = Some (winnerId c1) \<or> player2 m0 = Some (winnerId c1) \<longrightarrow>
                slot_player sl nm' = Some (winnerId c1)"
    unfolding s1 by auto
  show "\<exists>st' m' nm'. submitResult st matchId userId wId sc prf now = Inr (st', Some m')
          \<and> status m' = completed
          \<and> getMatch (db st') nid = Some nm'
          \<and> slot_player sl nm'
              = (if player1 m0 = Some (winnerId c1) then player1 m0 else player2 m0)
          \<and> (player1 m0 = Some (winnerId c1) \<or> player2 m0 = Some (winnerId c1) \<longrightarrow>
                slot_player sl nm' = Some (winnerId c1))
          \<and> slot_player (other_slot sl) nm' = slot_player (other_slot sl) nm
          \<and> status nm' = (if player1 nm' \<noteq> None \<and> player2 nm' \<noteq> None
                          then scheduled else status nm)
          \<and> nm' = nm\<lparr>player1 := player1 nm', player2 := player2 nm', status := status nm'\<rparr>"
    by (rule exI[of _ st'], rule exI[of _ m'], rule exI[of _ nm'], intro conjI)
       (rule r fin g s1 s3 s2 s4 s5)+
next
  let ?al = "allMatches_of bst newId shuffled"
  let ?sm = "stored_matches bst newId shuffled"
  let ?K = "size_of (length shuffled) div 2"
  assume b: "2 \<le> length shuffled \<and> inj newId \<and> (\<forall>y. getMatch (db bst) (newId y) = None)"
  then have n: "2 \<le> length shuffled" and inj: "inj newId"
    and fresh: "\<And>y. getMatch (db bst) (newId y) = None" by simp_all
  obtain st' where g: "generateBracket bst newId shuffled = Inr (st', ?al)"
    and d: "db st' = db bst @ ?sm"
    using generateBracket_db[OF n inj fresh] by blast
  have l: "length ?sm = length ?al" by simp
  have pos: "\<forall>j. 2 * j + 1 < ?K \<longrightarrow>
              ?K + j < length ?sm
              \<and> getMatch (db st') (newId (?K + j)) = Some (?sm ! (?K + j))
              \<and> round_m (?sm ! (?K + j)) = 2
              \<and> round_m (?al ! (2 * j)) = 1
              \<and> nextMatchId (?al ! (2 * j)) = Some (newId (?K + j))
              \<and> nextMatchSlot (?al ! (2 * j)) = Some SlotPlayer1
              \<and> round_m (?al ! (2 * j + 1)) = 1
              \<and> nextMatchId (?al ! (2 * j + 1)) = Some (newId (?K + j))
              \<and> nextMatchSlot (?al ! (2 * j + 1)) = Some SlotPlayer2
              \<and> (player2 (?al ! (2 * j)) = None)
                  = (length shuffled \<le> size_of (length shuffled) - 1 - 2 * j)
              \<and> (player2 (?al ! (2 * j + 1)) = None)
                  = (length shuffled \<le> size_of (length shuffled) - 1 - (2 * j + 1))
              \<and> status (?sm ! (?K + j))
                  = (if player2 (?al ! (2 * j)) = None \<and> player2 (?al ! (2 * j + 1)) = None
                     then scheduled else pending)
              \<and> (player2 (?al ! (2 * j)) = None \<and> player2 (?al ! (2 * j + 1)) = None \<longrightarrow>
                  status (?al ! (2 * j)) = completed
                  \<and> winner (?al ! (2 * j)) = Some (p_id (shuffled ! (2 * j)))
                  \<and> status (?al ! (2 * j + 1)) = completed
                  \<and> winner (?al ! (2 * j + 1)) = Some (p_id (shuffled ! (2 * j + 1)))
                  \<and> status (?sm ! (?K + j)) = scheduled
                  \<and> player1 (?sm ! (?K + j)) = Some (p_id (shuffled ! (2 * j)))
                  \<and> player2 (?sm ! (?K + j)) = Some (p_id (shuffled ! (2 * j + 1))))"
  proof (intro allI impI)
    fix j assume j: "2 * j + 1 < ?K"
    then have x1: "2 * j < ?K" by simp
    note r2 = round2_at[OF n inj fresh j]
    have i1: "(player2 (?al ! (2 * j)) = None)
                  = (length shuffled \<le> size_of (length shuffled) - 1 - 2 * j)"
      using round1_at(7)[OF n x1, of bst newId] by auto
    have i2: "(player2 (?al ! (2 * j + 1)) = None)
                  = (length shuffled \<le> size_of (length shuffled) - 1 - (2 * j + 1))"
      using round1_at(7)[OF n j, of bst newId] by auto
    have both: "status (?al ! (2 * j)) = completed
                  \<and> winner (?al ! (2 * j)) = Some (p_id (shuffled ! (2 * j)))
                  \<and> status (?al ! (2 * j + 1)) = completed
                  \<and> winner (?al ! (2 * j + 1)) = Some (p_id (shuffled ! (2 * j + 1)))
                  \<and> status (?sm ! (?K + j)) = scheduled
                  \<and> player1 (?sm ! (?K + j)) = Some (p_id (shuffled ! (2 * j)))
                  \<and> player2 (?sm ! (?K + j)) = Some (p_id (shuffled ! (2 * j + 1)))"
      if p: "player2 (?al ! (2 * j)) = None \<and> player2 (?al ! (2 * j + 1)) = None"
      using round1_at(7,8,9)[OF n x1, of bst newId] round1_at(7,8,9)[OF n j, of bst newId]
        r2(10,11,12) p
      by (simp split: if_splits)
    show "?K + j < length ?sm
              \<and> getMatch (db st') (newId (?K + j)) = Some (?sm ! (?K + j))
              \<and> round_m (?sm ! (?K + j)) = 2
              \<and> round_m (?al ! (2 * j)) = 1
              \<and> nextMatchId (?al ! (2 * j)) = Some (newId (?K + j))
              \<and> nextMatchSlot (?al ! (2 * j)) = Some SlotPlayer1
              \<and> round_m (?al ! (2 * j + 1)) = 1
              \<and> nextMatchId (?al ! (2 * j + 1)) = Some (newId (?K + j))
              \<and> nextMatchSlot (?al ! (2 * j + 1)) = Some SlotPlayer2
              \<and> (player2 (?al ! (2 * j)) = None)
                  = (length shuffled \<le> size_of (length shuffled) - 1 - 2 * j)
              \<and> (player2 (?al ! (2 * j + 1)) = None)
                  = (length shuffled \<le> size_of (length shuffled) - 1 - (2 * j + 1))
              \<and> status (?sm ! (?K + j))
                  = (if player2 (?al ! (2 * j)) = None \<and> player2 (?al ! (2 * j + 1)) = None
                     then scheduled else pending)
              \<and> (player2 (?al ! (2 * j)) = None \<and> player2 (?al ! (2 * j + 1)) = None \<longrightarrow>
                  status (?al ! (2 * j)) = completed
                  \<and> winner (?al ! (2 * j)) = Some (p_id (shuffled ! (2 * j)))
                  \<and> status (?al ! (2 * j + 1)) = completed
                  \<and> winner (?al ! (2 * j + 1)) = Some (p_id (shuffled ! (2 * j + 1)))
                  \<and> status (?sm ! (?K + j)) = scheduled
                  \<and> player1 (?sm ! (?K + j)) = Some (p_id (shuffled ! (2 * j)))
                  \<and> player2 (?sm ! (?K + j)) = Some (p_id (shuffled ! (2 * j + 1))))"
      unfolding d
      by (intro conjI)
         (rule r2(1), rule r2(2), rule r2(9), rule r2(7), rule r2(3), rule r2(4), rule r2(8),
          rule r2(5), rule r2(6), rule i1, rule i2, rule r2(10), rule impI, rule both, assumption)
  qed
  have pairs: "\<forall>m1 \<in> set ?al. \<forall>m2 \<in> set ?al.
              round_m m1 = 1 \<and> round_m m2 = 1 \<and> player2 m1 = None \<and> player2 m2 = None
              \<and> m1 \<noteq> m2 \<and> nextMatchId m1 = nextMatchId m2 \<longrightarrow>
              (\<exists>nid nm. nextMatchId m1 = Some nid \<and> getMatch (db st') nid = Some nm
                 \<and> round_m nm = 2 \<and> status nm = scheduled
                 \<and> {player1 nm, player2 nm} = {winner m1, winner m2}
                 \<and> player1 nm \<noteq> None \<and> player2 nm \<noteq> None)"
    using two_byes_schedule_successor[OF n inj fresh d] by blast
  show "\<exists>st' allMatches stored. generateBracket bst newId shuffled = Inr (st', allMatches)
         \<and> db st' = db bst @ stored
         \<and> length stored = length allMatches
         \<and> (\<forall>j. 2 * j + 1 < ?K \<longrightarrow>
              ?K + j < length stored
              \<and> getMatch (db st') (newId (?K + j)) = Some (stored ! (?K + j))
              \<and> round_m (stored ! (?K + j)) = 2
              \<and> round_m (allMatches ! (2 * j)) = 1
              \<and> nextMatchId (allMatches ! (2 * j)) = Some (newId (?K + j))
              \<and> nextMatchSlot (allMatches ! (2 * j)) = Some SlotPlayer1
              \<and> round_m (allMatches ! (2 * j + 1)) = 1
              \<and> nextMatchId (allMatches ! (2 * j + 1)) = Some (newId (?K + j))
              \<and> nextMatchSlot (allMatches ! (2 * j + 1)) = Some SlotPlayer2
              \<and> (player2 (allMatches ! (2 * j)) = None)
                  = (length shuffled \<le> size_of (length shuffled) - 1 - 2 * j)
              \<and> (player2 (allMatches ! (2 * j + 1)) = None)
                  = (length shuffled \<le> size_of (length shuffled) - 1 - (2 * j + 1))
              \<and> status (stored ! (?K + j))
                  = (if player2 (allMatches ! (2 * j)) = None
                        \<and> player2 (allMatches ! (2 * j + 1)) = None
                     then scheduled else pending)
              \<and> (player2 (allMatches ! (2 * j)) = None
                    \<and> player2 (allMatches ! (2 * j + 1)) = None \<longrightarrow>
                  status (allMatches ! (2 * j)) = completed
                  \<and> winner (allMatches ! (2 * j)) = Some (p_id (shuffled ! (2 * j)))
                  \<and> status (allMatches ! (2 * j + 1)) = completed
                  \<and> winner (allMatches ! (2 * j + 1)) = Some (p_id (shuffled ! (2 * j + 1)))
                  \<and> status (stored ! (?K + j)) = scheduled
                  \<and> player1 (stored ! (?K + j)) = Some (p_id (shuffled ! (2 * j)))
                  \<and> player2 (stored ! (?K + j)) = Some (p_id (shuffled ! (2 * j + 1)))))
         \<and> (\<forall>m1 \<in> set allMatches. \<forall>m2 \<in> set allMatches.
              round_m m1 = 1 \<and> round_m m2 = 1 \<and> player2 m1 = None \<and> player2 m2 = None
              \<and> m1 \<noteq> m2 \<and> nextMatchId m1 = nextMatchId m2 \<longrightarrow>
              (\<exists>nid nm. nextMatchId m1 = Some nid \<and> getMatch (db st') nid = Some nm
                 \<and> round_m nm = 2 \<and> status nm = scheduled
                 \<and> {player1 nm, player2 nm} = {winner m1, winner m2}
                 \<and> player1 nm \<noteq> None \<and> player2 nm \<noteq> None))"
    by (rule exI[of _ st'], rule exI[of _ ?al], rule exI[of _ ?sm], intro conjI)
       (rule g d l pos pairs)+
qed

section \<open>The example brackets, built and advanced\<close>

text \<open>
  The example brackets are what \<open>generateBracket\<close> builds from an empty collection with
  the match ids 0, 1, 2, ...
\<close>

lemma rounds_of_code [code]: "rounds_of n = ceillog2 n"
  by (rule rounds_of_ceillog2)

lemma ex_five_generated:
  "generateBracket ex_empty (\<lambda>k. k) ex_five = Inr (ex_five_built, ex_five_all)"
  by code_simp

lemma ex_bracket_generated:
  "generateBracket ex_empty (\<lambda>k. k) ex_players = Inr (ex_bracket, [ex_m0, ex_m1, ex_m2])"
  by code_simp

lemma ex_match_fields [simp]:
  "oid (ex_match i r p1 p2 w s nid sl) = i" "round_m (ex_match i r p1 p2 w s nid sl) = r"
  "player1 (ex_match i r p1 p2 w s nid sl) = p1" "player2 (ex_match i r p1 p2 w s nid sl) = p2"
  "winner (ex_match i r p1 p2 w s nid sl) = w" "status (ex_match i r p1 p2 w s nid sl) = s"
  "nextMatchId (ex_match i r p1 p2 w s nid sl) = nid"
  "nextMatchSlot (ex_match i r p1 p2 w s nid sl) = sl"
  by (simp_all add: ex_match_def)

theorem round1_bye_completed_and_advanced_witness:
  "2 \<le> length ex_five \<and> inj (\<lambda>k::nat. k) \<and> (\<forall>y. getMatch (db ex_empty) y = None)
   \<and> generateBracket ex_empty (\<lambda>k. k) ex_five = Inr (ex_five_built, ex_five_all)
   \<and> (\<forall>r. length ex_five \<noteq> 2 ^ r)
   \<and> (0::nat) < size_of (length ex_five) div 2
   \<and> player2 (ex_five_all ! 0) = None
   \<and> ex_five_all ! 0 = ex_match 0 1 (Some 11) None (Some 11) completed (Some 4) (Some SlotPlayer1)
   \<and> getMatch (db ex_five_built) 0 = Some (ex_five_all ! 0)
   \<and> (\<exists>nm. getMatch (db ex_five_built) 4 = Some nm \<and> round_m nm = 2 \<and> player1 nm = Some 11)
   \<and> db ex_empty = []
   \<and> (\<exists>S. submitResults ex_five_built [ex_sub 0 11 11 1, ex_sub 3 14 14 2, ex_sub 3 15 14 3] = Inr S
          \<and> (\<exists>d. getMatch (db S) 0 = Some d \<and> status d \<noteq> scheduled))"
proof -
  have h: "2 \<le> length ex_five" "inj (\<lambda>k::nat. k)" "\<forall>y. getMatch (db ex_empty) ((\<lambda>k. k) y) = None"
    by (simp_all add: ex_five_length ex_empty_fresh)
  from round1_bye_completed_and_advanced[OF h]
  obtain st' allMatches stored where
    g: "generateBracket ex_empty (\<lambda>k. k) ex_five = Inr (st', allMatches)"
    and d: "db st' = db ex_empty @ stored"
    and first: "(\<forall>r. length ex_five \<noteq> 2 ^ r) \<longrightarrow> player2 (allMatches ! 0) = None"
    and pos: "\<forall>x < size_of (length ex_five) div 2.
            player1 (allMatches ! x) = Some (p_id (ex_five ! x))
            \<and> (player2 (allMatches ! x) = None)
                = (length ex_five \<le> size_of (length ex_five) - 1 - x)
            \<and> (player2 (allMatches ! x) = None \<longrightarrow>
                 allMatches ! x =
                   \<lparr>oid = x, tournamentId = this_tournamentId ex_empty, round_m = 1,
                    player1 = Some (p_id (ex_five ! x)), player2 = None,
                    winner = Some (p_id (ex_five ! x)), status = completed,
                    nextMatchId = Some (size_of (length ex_five) div 2 + x div 2),
                    nextMatchSlot = Some (if even x then SlotPlayer1 else SlotPlayer2),
                    result = None, claims = None\<rparr>
                 \<and> stored ! x = allMatches ! x
                 \<and> getMatch (db st') x = Some (allMatches ! x)
                 \<and> (\<exists>nm. getMatch (db st') (size_of (length ex_five) div 2 + x div 2)
                            = Some nm
                        \<and> nm = stored ! (size_of (length ex_five) div 2 + x div 2)
                        \<and> round_m nm = 2
                        \<and> slot_player (if even x then SlotPlayer1 else SlotPlayer2) nm
                            = Some (p_id (ex_five ! x)))
                 \<and> ((\<forall>d \<in> set (db ex_empty). nextMatchId d \<noteq> Some x) \<longrightarrow>
                      (\<forall>subs st''. submitResults st' subs = Inr st'' \<longrightarrow>
                         (\<exists>d. getMatch (db st'') x = Some d \<and> status d \<noteq> scheduled
                            \<and> d = (allMatches ! x)\<lparr>claims := claims d, status := status d,
                                                    result := result d\<rparr>))))"
    by (elim exE conjE) (rule that)
  have eq: "st' = ex_five_built" "allMatches = ex_five_all"
    using g ex_five_generated by simp_all
  have K: "size_of (length ex_five) div 2 = 4"
    by (simp add: size_of_def ex_five_length rounds_of_5)
  have K0: "0 < size_of (length ex_five) div 2" unfolding K by simp
  have np: "\<forall>r. length ex_five \<noteq> 2 ^ r"
  proof
    fix r :: nat
    have "even ((2::nat) ^ r) \<or> (2::nat) ^ r = 1" by (cases r) simp_all
    moreover have "odd (5::nat)" "(5::nat) \<noteq> 1" by simp_all
    ultimately have "(5::nat) \<noteq> 2 ^ r" by metis
    then show "length ex_five \<noteq> 2 ^ r" by (simp add: ex_five_length)
  qed
  have p2: "player2 (allMatches ! 0) = None" using first np by blast
  have old: "\<forall>d \<in> set (db ex_empty). nextMatchId d \<noteq> Some 0" by (simp add: ex_empty_def)
  obtain S where run: "submitResults st' [ex_sub 0 11 11 1, ex_sub 3 14 14 2, ex_sub 3 15 14 3] = Inr S"
    unfolding eq by (simp add: ex_five_built_def ex_match_def ex_sub_def run_defs)
  note bye0 = pos[rule_format, OF K0, THEN conjunct2, THEN conjunct2, rule_format, OF p2]
  note rec = bye0[THEN conjunct1]
  note own = bye0[THEN conjunct2, THEN conjunct2, THEN conjunct1]
  note succ = bye0[THEN conjunct2, THEN conjunct2, THEN conjunct2, THEN conjunct1]
  note never = bye0[THEN conjunct2, THEN conjunct2, THEN conjunct2, THEN conjunct2,
                    rule_format, OF old[rule_format] run]
  have a: "ex_five_all ! 0
             = ex_match 0 1 (Some 11) None (Some 11) completed (Some 4) (Some SlotPlayer1)"
    using rec unfolding eq K by (simp add: ex_match_def ex_five_def ex_empty_def)
  have b: "getMatch (db ex_five_built) 0 = Some (ex_five_all ! 0)"
    using own unfolding eq .
  have c: "\<exists>nm. getMatch (db ex_five_built) 4 = Some nm \<and> round_m nm = 2 \<and> player1 nm = Some 11"
    using succ unfolding eq K by (auto simp: slot_player_def ex_five_def)
  have e: "\<exists>S. submitResults ex_five_built [ex_sub 0 11 11 1, ex_sub 3 14 14 2, ex_sub 3 15 14 3] = Inr S
          \<and> (\<exists>d. getMatch (db S) 0 = Some d \<and> status d \<noteq> scheduled)"
    using run never unfolding eq by blast
  show ?thesis
    using h g[unfolded eq] np K0 p2[unfolded eq] a b c e
    by (simp add: ex_empty_fresh ex_empty_def)
qed

theorem winner_advances_into_named_slot_witness:
  "getMatch (db ex_bracket) 0 = Some ex_m0 \<and> nextMatchId ex_m0 = Some 2
   \<and> getMatch (db ex_bracket) 2 = Some ex_m2 \<and> nextMatchSlot ex_m0 = Some SlotPlayer1
   \<and> player1 ex_m0 = Some 1
   \<and> (\<exists>st' nm'. advanceWinner ex_bracket 0 1 = Inr st' \<and> getMatch (db st') 2 = Some nm'
          \<and> player1 nm' = Some 1 \<and> player2 nm' = None \<and> status nm' = pending
          \<and> getMatch (db st') 1 = Some ex_m1)
   \<and> getMatch (db ex_one_claim) 0
        = Some (ex_m0\<lparr>status := awaiting_confirmation, claims := Some [(1, ex_claim 1 1)]\<rparr>)
   \<and> getMatch (db ex_one_claim) 2 = Some ex_m2
   \<and> (\<exists>st' m' nm'. submitResult ex_one_claim 0 4 1 None None 2 = Inr (st', Some m')
          \<and> status m' = completed \<and> getMatch (db st') 2 = Some nm'
          \<and> player1 nm' = Some 1 \<and> player2 nm' = None \<and> status nm' = pending)
   \<and> 2 \<le> length ex_five \<and> inj (\<lambda>k::nat. k) \<and> (\<forall>y. getMatch (db ex_empty) y = None)
   \<and> generateBracket ex_empty (\<lambda>k. k) ex_five = Inr (ex_five_built, ex_five_all)
   \<and> 2 * 0 + 1 < size_of (length ex_five) div 2
   \<and> player2 (ex_five_all ! 0) = None \<and> player2 (ex_five_all ! 1) = None
   \<and> (\<exists>nm. getMatch (db ex_five_built) 4 = Some nm \<and> round_m nm = 2 \<and> status nm = scheduled
          \<and> player1 nm = Some 11 \<and> player2 nm = Some 12)
   \<and> ex_match 0 1 (Some 11) None (Some 11) completed (Some 4) (Some SlotPlayer1) \<in> set ex_five_all
   \<and> ex_match 1 1 (Some 12) None (Some 12) completed (Some 4) (Some SlotPlayer2) \<in> set ex_five_all
   \<and> (\<exists>nm. getMatch (db ex_five_built) 4 = Some nm \<and> round_m nm = 2 \<and> status nm = scheduled
          \<and> {player1 nm, player2 nm} = {Some 11, Some 12})"
proof -
  let ?M1 = "ex_match 0 1 (Some 11) None (Some 11) completed (Some 4) (Some SlotPlayer1)"
  let ?M2 = "ex_match 1 1 (Some 12) None (Some 12) completed (Some 4) (Some SlotPlayer2)"
  let ?m0 = "ex_m0\<lparr>status := awaiting_confirmation, claims := Some [(1, ex_claim 1 1)]\<rparr>"
  let ?cl = "[(1, ex_claim 1 1), (4, ex_claim 1 2)]"
  note inst = winner_advances_into_named_slot[where st = ex_bracket and matchId = 0 and w = 1]
  have pa: "getMatch (db ex_bracket) 0 = Some ex_m0 \<and> nextMatchId ex_m0 = Some 2
      \<and> getMatch (db ex_bracket) 2 = Some ex_m2 \<and> nextMatchSlot ex_m0 = Some SlotPlayer1
      \<and> player1 ex_m0 = Some 1"
    by (simp add: ex_defs getMatch_def)
  from inst[THEN conjunct1, rule_format, OF pa]
  obtain st' nm' where adv: "advanceWinner ex_bracket 0 1 = Inr st'"
    and g2: "getMatch (db st') 2 = Some nm'"
    and s1: "slot_player SlotPlayer1 nm' = (if (1::nat) = 1 then Some 1 else player2 ex_m0)"
    and s2: "slot_player (other_slot SlotPlayer1) nm' = slot_player (other_slot SlotPlayer1) ex_m2"
    and s3: "status nm' = (if player1 nm' \<noteq> None \<and> player2 nm' \<noteq> None
                          then scheduled else status ex_m2)"
    and oth: "\<forall>j. j \<noteq> 2 \<longrightarrow> getMatch (db st') j = getMatch (db ex_bracket) j"
    by (elim exE conjE) (rule that)
  have p: "player1 nm' = Some 1" "player2 nm' = None"
    using s1 s2 by (simp_all add: slot_player_def other_slot_def ex_m2_def)
  then have st: "status nm' = pending" using s3 by (simp add: ex_m2_def)
  have g1: "getMatch (db st') 1 = Some ex_m1"
    using oth[rule_format, of 1] by (simp add: ex_defs getMatch_def)
  have A: "\<exists>st' nm'. advanceWinner ex_bracket 0 1 = Inr st' \<and> getMatch (db st') 2 = Some nm'
          \<and> player1 nm' = Some 1 \<and> player2 nm' = None \<and> status nm' = pending
          \<and> getMatch (db st') 1 = Some ex_m1"
    using adv g2 p st g1 by blast
  note inst2 = winner_advances_into_named_slot[of ex_one_claim 0 _ 4 1 None None 2]
  have f0: "getMatch (db ex_one_claim) 0 = Some ?m0"
    and f2: "getMatch (db ex_one_claim) 2 = Some ex_m2"
    by (simp_all add: ex_defs getMatch_def)
  have pb: "getMatch (db ex_one_claim) 0 = Some ?m0
      \<and> ?cl = record_claim ?m0 4
                 \<lparr>winnerId = 1, scores = None, claim_proof = None, timestamp = 2\<rparr>
      \<and> claims_get ?cl (player1 ?m0) = Some (ex_claim 1 1)
      \<and> claims_get ?cl (player2 ?m0) = Some (ex_claim 1 2)
      \<and> winnerId (ex_claim 1 1) = winnerId (ex_claim 1 2)
      \<and> nextMatchId ?m0 = Some 2 \<and> (2::nat) \<noteq> 0
      \<and> getMatch (db ex_one_claim) 2 = Some ex_m2 \<and> nextMatchSlot ?m0 = Some SlotPlayer1"
    by (simp add: ex_defs getMatch_def record_claim_def claims_get_def)
  from inst2[THEN conjunct2, THEN conjunct1, rule_format, OF pb]
  obtain bt' m' bn' where r: "submitResult ex_one_claim 0 4 1 None None 2 = Inr (bt', Some m')"
    and fin: "status m' = completed"
    and h2: "getMatch (db bt') 2 = Some bn'"
    and t1: "slot_player SlotPlayer1 bn'
              = (if player1 ?m0 = Some (winnerId (ex_claim 1 1)) then player1 ?m0 else player2 ?m0)"
    and t2: "slot_player (other_slot SlotPlayer1) bn' = slot_player (other_slot SlotPlayer1) ex_m2"
    and t3: "status bn' = (if player1 bn' \<noteq> None \<and> player2 bn' \<noteq> None
                          then scheduled else status ex_m2)"
    by (elim exE conjE) (rule that)
  have q: "player1 bn' = Some 1" "player2 bn' = None"
    using t1 t2 by (simp_all add: slot_player_def other_slot_def ex_defs)
  then have bs: "status bn' = pending" using t3 by (simp add: ex_m2_def)
  have B: "\<exists>st' m' nm'. submitResult ex_one_claim 0 4 1 None None 2 = Inr (st', Some m')
          \<and> status m' = completed \<and> getMatch (db st') 2 = Some nm'
          \<and> player1 nm' = Some 1 \<and> player2 nm' = None \<and> status nm' = pending"
    using r fin h2 q bs by blast
  note inst3 = winner_advances_into_named_slot[where shuffled = ex_five and newId = "\<lambda>k. k"
                 and bst = ex_empty]
  have h: "2 \<le> length ex_five \<and> inj (\<lambda>k::nat. k) \<and> (\<forall>y. getMatch (db ex_empty) ((\<lambda>k. k) y) = None)"
    by (simp add: ex_five_length ex_empty_fresh)
  from inst3[THEN conjunct2, THEN conjunct2, rule_format, OF h]
  obtain ct' allMatches stored where
    g: "generateBracket ex_empty (\<lambda>k. k) ex_five = Inr (ct', allMatches)"
    and d: "db ct' = db ex_empty @ stored"
    and pos: "\<forall>j. 2 * j + 1 < size_of (length ex_five) div 2 \<longrightarrow>
              size_of (length ex_five) div 2 + j < length stored
              \<and> getMatch (db ct') (size_of (length ex_five) div 2 + j)
                  = Some (stored ! (size_of (length ex_five) div 2 + j))
              \<and> round_m (stored ! (size_of (length ex_five) div 2 + j)) = 2
              \<and> round_m (allMatches ! (2 * j)) = 1
              \<and> nextMatchId (allMatches ! (2 * j))
                  = Some (size_of (length ex_five) div 2 + j)
              \<and> nextMatchSlot (allMatches ! (2 * j)) = Some SlotPlayer1
              \<and> round_m (allMatches ! (2 * j + 1)) = 1
              \<and> nextMatchId (allMatches ! (2 * j + 1))
                  = Some (size_of (length ex_five) div 2 + j)
              \<and> nextMatchSlot (allMatches ! (2 * j + 1)) = Some SlotPlayer2
              \<and> (player2 (allMatches ! (2 * j)) = None)
                  = (length ex_five \<le> size_of (length ex_five) - 1 - 2 * j)
              \<and> (player2 (allMatches ! (2 * j + 1)) = None)
                  = (length ex_five \<le> size_of (length ex_five) - 1 - (2 * j + 1))
              \<and> status (stored ! (size_of (length ex_five) div 2 + j))
                  = (if player2 (allMatches ! (2 * j)) = None
                        \<and> player2 (allMatches ! (2 * j + 1)) = None
                     then scheduled else pending)
              \<and> (player2 (allMatches ! (2 * j)) = None
                    \<and> player2 (allMatches ! (2 * j + 1)) = None \<longrightarrow>
                  status (allMatches ! (2 * j)) = completed
                  \<and> winner (allMatches ! (2 * j)) = Some (p_id (ex_five ! (2 * j)))
                  \<and> status (allMatches ! (2 * j + 1)) = completed
                  \<and> winner (allMatches ! (2 * j + 1)) = Some (p_id (ex_five ! (2 * j + 1)))
                  \<and> status (stored ! (size_of (length ex_five) div 2 + j)) = scheduled
                  \<and> player1 (stored ! (size_of (length ex_five) div 2 + j))
                      = Some (p_id (ex_five ! (2 * j)))
                  \<and> player2 (stored ! (size_of (length ex_five) div 2 + j))
                      = Some (p_id (ex_five ! (2 * j + 1))))"
    and b: "\<forall>m1 \<in> set allMatches. \<forall>m2 \<in> set allMatches.
              round_m m1 = 1 \<and> round_m m2 = 1 \<and> player2 m1 = None \<and> player2 m2 = None
              \<and> m1 \<noteq> m2 \<and> nextMatchId m1 = nextMatchId m2 \<longrightarrow>
              (\<exists>nid nm. nextMatchId m1 = Some nid \<and> getMatch (db ct') nid = Some nm
                 \<and> round_m nm = 2 \<and> status nm = scheduled
                 \<and> {player1 nm, player2 nm} = {winner m1, winner m2}
                 \<and> player1 nm \<noteq> None \<and> player2 nm \<noteq> None)"
    by (elim exE conjE) (rule that)
  have eq: "ct' = ex_five_built" "allMatches = ex_five_all"
    using g ex_five_generated by simp_all
  have K: "size_of (length ex_five) div 2 = 4"
    by (simp add: size_of_def ex_five_length rounds_of_5)
  have j0: "2 * 0 + 1 < size_of (length ex_five) div 2" unfolding K by simp
  have byes: "player2 (allMatches ! (2 * 0)) = None \<and> player2 (allMatches ! (2 * 0 + 1)) = None"
    unfolding eq by (simp add: ex_five_all_def)
  note at0 = pos[rule_format, OF j0]
  note look = at0[THEN conjunct2, THEN conjunct1]
  note rnd = at0[THEN conjunct2, THEN conjunct2, THEN conjunct1]
  note sched = at0[THEN conjunct2, THEN conjunct2, THEN conjunct2, THEN conjunct2,
                   THEN conjunct2, THEN conjunct2, THEN conjunct2, THEN conjunct2,
                   THEN conjunct2, THEN conjunct2, THEN conjunct2, THEN conjunct2,
                   rule_format, OF byes]
  have C: "\<exists>nm. getMatch (db ex_five_built) 4 = Some nm \<and> round_m nm = 2 \<and> status nm = scheduled
          \<and> player1 nm = Some 11 \<and> player2 nm = Some 12"
    using look rnd sched unfolding eq K by (simp add: ex_five_def)
  have mem: "?M1 \<in> set ex_five_all" "?M2 \<in> set ex_five_all" by (simp_all add: ex_five_all_def)
  have hyp: "round_m ?M1 = 1 \<and> round_m ?M2 = 1 \<and> player2 ?M1 = None \<and> player2 ?M2 = None
              \<and> ?M1 \<noteq> ?M2 \<and> nextMatchId ?M1 = nextMatchId ?M2"
    by (simp add: ex_match_def)
  from b[unfolded eq, rule_format, OF mem hyp]
  have D: "\<exists>nm. getMatch (db ex_five_built) 4 = Some nm \<and> round_m nm = 2 \<and> status nm = scheduled
          \<and> {player1 nm, player2 nm} = {Some 11, Some 12}"
    by auto
  have byes': "player2 (ex_five_all ! 0) = None" "player2 (ex_five_all ! 1) = None"
    using byes unfolding eq by simp_all
  show ?thesis
    using pa A f0 f2 B h g[unfolded eq] j0 byes' C mem D by (simp add: ex_empty_fresh)
qed

end
